theory Spec2Isabelle
  imports Main "HOL-Library.Multiset"
begin

section \<open>The grid engine of the 2048 game (src/2048.py)\<close>

subsection \<open>Squares, exceptions and the grid object\<close>

text \<open>
  A \<open>Square\<close> is a mutable object with one attribute, \<open>value\<close>, which is \<open>None\<close> or
  an integer. The lines handed to \<open>_shift\<close> are lists of references to these objects, and
  \<open>last_filled_spot\<close> is such a reference too, so the objects are kept in a store: a square
  is named by the pair of loop counters \<open>(x, y)\<close> of \<open>_init_squares\<close> at which it was
  created, and the store maps each square to its \<open>value\<close> attribute.
\<close>

type_synonym square = "nat \<times> nat"

type_synonym store = "square \<Rightarrow> int option"

datatype exn = GameOverException | GameFinishedException | IndexError

record grid =
  width :: int
  height :: int
  squares :: "square list list"
  val :: store

definition GOAL :: int where
  "GOAL = 2048"

subsection \<open>Construction helpers\<close>

text \<open>
  \<open>_init_squares\<close>: for every \<open>x\<close> in \<open>range(width)\<close> a new row is appended, and for every
  \<open>y\<close> in \<open>range(height)\<close> a fresh \<open>Square()\<close> (value \<open>None\<close>) is appended to the last row.
  \<open>range(n)\<close> of a negative \<open>n\<close> is empty, as \<open>[0..<nat n]\<close> is. A row has always been
  appended when \<open>squares[-1]\<close> is read, so that read never raises; \<open>init_row\<close> is the
  body of the outer loop.
\<close>

definition append_Square :: "nat \<Rightarrow> nat \<Rightarrow> grid \<Rightarrow> grid" where
  "append_Square x y g =
     g\<lparr>squares := butlast (squares g) @ [last (squares g) @ [(x, y)]],
       val := (val g)((x, y) := None)\<rparr>"

definition init_row :: "nat \<Rightarrow> grid \<Rightarrow> grid" where
  "init_row x g = fold (append_Square x) [0..<nat (height g)] (g\<lparr>squares := squares g @ [[]]\<rparr>)"

definition init_squares :: "grid \<Rightarrow> grid" where
  "init_squares g = fold init_row [0..<nat (width g)] g"

text \<open>\<open>_get_empty_squares\<close>: the squares whose value is \<open>None\<close>, row by row.\<close>

definition get_empty_squares :: "grid \<Rightarrow> square list" where
  "get_empty_squares g = filter (\<lambda>y. val g y = None) (concat (squares g))"

text \<open>
  \<open>_new_square\<close>: \<open>random.choice(empty_squares)\<close> returns \<open>empty_squares[k]\<close> for a drawn
  index \<open>k\<close> below the length of the list; the draw \<open>k\<close> is a parameter of the model.
  The result is the raised exception (\<open>Inl\<close>) or a normal return (\<open>Inr\<close>), with the grid
  as it is afterwards.
\<close>

definition new_square :: "nat \<Rightarrow> grid \<Rightarrow> (exn + unit) \<times> grid" where
  "new_square k g =
     (let empty_squares = get_empty_squares g in
      if length empty_squares = 0 then (Inl GameOverException, g)
      else (Inr (), g\<lparr>val := (val g)(empty_squares ! k := Some 2)\<rparr>))"

text \<open>\<open>Grid.__init__\<close>: a raising constructor yields no object.\<close>

definition Grid_init :: "int \<Rightarrow> int \<Rightarrow> nat \<Rightarrow> nat \<Rightarrow> exn + grid" where
  "Grid_init w h k1 k2 =
     (let g0 = init_squares \<lparr>width = w, height = h, squares = [], val = (\<lambda>_. None)\<rparr> in
      case new_square k1 g0 of
        (Inl e, _) \<Rightarrow> Inl e
      | (Inr _, g1) \<Rightarrow>
          (case new_square k2 g1 of
             (Inl e, _) \<Rightarrow> Inl e
           | (Inr _, g2) \<Rightarrow> Inr g2))"

subsection \<open>The line collapse \<open>_shift\<close>\<close>

record shift_vars =
  first_empty_spot :: "nat option"
  last_filled_spot :: "square option"
  merged :: bool
  finished :: bool
  made_move :: bool

definition shift_init :: shift_vars where
  "shift_init = \<lparr>first_empty_spot = None, last_filled_spot = None, merged = False,
                 finished = False, made_move = False\<rparr>"

text \<open>
  One iteration of the \<open>for i, spot in enumerate(squares)\<close> loop; the argument
  \<open>squares\<close> of the source is called \<open>line\<close> here. A reference is truthy
  unless it is \<open>None\<close>, so the merge test is: there is a last filled spot and its value
  equals the value of \<open>spot\<close>. The statements of each branch are applied in source order.
\<close>

definition shift_body :: "square list \<Rightarrow> nat \<times> square \<Rightarrow> shift_vars \<times> store \<Rightarrow> shift_vars \<times> store" where
  "shift_body line = (\<lambda>(i, spot) (v, s).
     if s spot = None then
       (if first_empty_spot v = None then (v\<lparr>first_empty_spot := Some i\<rparr>, s) else (v, s))
     else if (case last_filled_spot v of None \<Rightarrow> False | Some l \<Rightarrow> s l = s spot) then
       (if merged v then (v, s)
        else
          let l = the (last_filled_spot v);
              s1 = s(l := Some (the (s l) + the (s spot)));
              v1 = (if s1 l = Some GOAL then v\<lparr>finished := True\<rparr> else v);
              s2 = s1(spot := None);
              v2 = v1\<lparr>merged := True, made_move := True\<rparr>
          in (if first_empty_spot v2 = None then v2\<lparr>first_empty_spot := Some i\<rparr> else v2, s2))
     else if first_empty_spot v \<noteq> None then
       (let f = the (first_empty_spot v);
            s1 = s(line ! f := s spot);
            v1 = v\<lparr>last_filled_spot := Some (line ! f)\<rparr>;
            s2 = s1(spot := None)
        in (v1\<lparr>first_empty_spot := Some (f + 1), made_move := True\<rparr>, s2))
     else (v\<lparr>last_filled_spot := Some spot\<rparr>, s))"

definition shift_loop :: "square list \<Rightarrow> store \<Rightarrow> shift_vars \<times> store" where
  "shift_loop line s = fold (shift_body line) (enumerate 0 line) (shift_init, s)"

definition shift :: "square list \<Rightarrow> store \<Rightarrow> (bool \<times> bool) \<times> store" where
  "shift line s = (let (v, s') = shift_loop line s in ((made_move v, finished v), s'))"

subsection \<open>Columns, moves and the four directions\<close>

text \<open>
  \<open>_get_columns\<close> allocates one empty list per row of \<open>squares\<close> and appends the
  \<open>i\<close>-th spot of every row to \<open>columns[i]\<close>; an index past the end raises
  \<open>IndexError\<close> and ends the call.
\<close>

definition append_column :: "nat \<times> square \<Rightarrow> exn + square list list \<Rightarrow> exn + square list list" where
  "append_column = (\<lambda>(i, spot) r.
     case r of
       Inl e \<Rightarrow> Inl e
     | Inr columns \<Rightarrow>
         if i < length columns then Inr (columns[i := columns ! i @ [spot]])
         else Inl IndexError)"

definition get_columns :: "grid \<Rightarrow> exn + square list list" where
  "get_columns g =
     fold (\<lambda>row r. fold append_column (enumerate 0 row) r) (squares g)
       (Inr (map (\<lambda>_. []) (squares g)))"

text \<open>
  \<open>_move\<close>: every line is shifted in turn on the store left by the previous one; the two
  flags are accumulated with \<open>or\<close>. Then \<open>GameFinishedException\<close> is raised, or a square
  is spawned, or nothing happens. The squares stay mutated when an exception is raised.
\<close>

definition move_loop :: "square list list \<Rightarrow> store \<Rightarrow> bool \<times> bool \<times> store" where
  "move_loop lines s =
     fold (\<lambda>line (fin, made, s).
             let ((made', fin'), s') = shift line s in (fin' \<or> fin, made' \<or> made, s'))
       lines (False, False, s)"

definition move :: "square list list \<Rightarrow> nat \<Rightarrow> grid \<Rightarrow> (exn + unit) \<times> grid" where
  "move lines k g =
     (let (fin, made, s) = move_loop lines (val g);
          g' = g\<lparr>val := s\<rparr>
      in if fin then (Inl GameFinishedException, g')
         else if made then new_square k g'
         else (Inr (), g'))"

definition Grid_left :: "nat \<Rightarrow> grid \<Rightarrow> (exn + unit) \<times> grid" where
  "Grid_left k g = move (squares g) k g"

definition Grid_right :: "nat \<Rightarrow> grid \<Rightarrow> (exn + unit) \<times> grid" where
  "Grid_right k g = move (map rev (squares g)) k g"

definition Grid_top :: "nat \<Rightarrow> grid \<Rightarrow> (exn + unit) \<times> grid" where
  "Grid_top k g =
     (case get_columns g of
        Inl e \<Rightarrow> (Inl e, g)
      | Inr columns \<Rightarrow> move columns k g)"

definition Grid_bottom :: "nat \<Rightarrow> grid \<Rightarrow> (exn + unit) \<times> grid" where
  "Grid_bottom k g =
     (case get_columns g of
        Inl e \<Rightarrow> (Inl e, g)
      | Inr columns \<Rightarrow> move (map rev columns) k g)"

text \<open>
  The main loop calls \<open>getattr(self._grid, action)()\<close> for an action among
  \<open>left\<close>, \<open>right\<close>, \<open>top\<close> and \<open>bottom\<close>.
\<close>

datatype action = Left | Right | Top | Bottom

fun act :: "action \<Rightarrow> nat \<Rightarrow> grid \<Rightarrow> (exn + unit) \<times> grid" where
  "act Left k g = Grid_left k g"
| "act Right k g = Grid_right k g"
| "act Top k g = Grid_top k g"
| "act Bottom k g = Grid_bottom k g"

text \<open>The lines a direction hands to \<open>_move\<close>, when their computation does not raise.\<close>

fun lines_of :: "action \<Rightarrow> grid \<Rightarrow> exn + square list list" where
  "lines_of Left g = Inr (squares g)"
| "lines_of Right g = Inr (map rev (squares g))"
| "lines_of Top g = get_columns g"
| "lines_of Bottom g = map_sum id (map rev) (get_columns g)"

text \<open>What the view reads: the value of every square, row by row.\<close>

definition cell_values :: "grid \<Rightarrow> int option list list" where
  "cell_values g = map (map (val g)) (squares g)"

subsection \<open>Auxiliary notions for the proofs\<close>

text \<open>
  The loop variables are well formed before iteration \<open>i\<close>: \<open>first_empty_spot\<close> is an
  index already visited (so \<open>squares[first_empty_spot]\<close> never raises), \<open>last_filled_spot\<close>
  is a square already visited, and \<open>finished\<close> and \<open>merged\<close> are only set with \<open>made_move\<close>.
\<close>

definition vars_ok :: "square list \<Rightarrow> nat \<Rightarrow> shift_vars \<Rightarrow> bool" where
  "vars_ok line i v \<longleftrightarrow>
     (\<forall>f. first_empty_spot v = Some f \<longrightarrow> f < i) \<and>
     (\<forall>l. last_filled_spot v = Some l \<longrightarrow> (\<exists>j<i. l = line ! j)) \<and>
     (finished v \<longrightarrow> made_move v) \<and> (merged v \<longrightarrow> made_move v)"

text \<open>The merge test of the loop body fails for a spot of value \<open>x\<close>.\<close>

definition no_merge :: "shift_vars \<Rightarrow> store \<Rightarrow> int \<Rightarrow> bool" where
  "no_merge v s x \<longleftrightarrow> (case last_filled_spot v of None \<Rightarrow> True | Some l \<Rightarrow> s l \<noteq> Some x)"

text \<open>
  A grid given by the table of its values, for concrete scenarios: square \<open>(x, y)\<close> is the
  \<open>y\<close>-th square of row \<open>x\<close>, as \<open>_init_squares\<close> lays them out.
\<close>

definition grid_of :: "int option list list \<Rightarrow> grid" where
  "grid_of rows =
     \<lparr>width = int (length rows), height = (if rows = [] then 0 else int (length (hd rows))),
      squares = map (\<lambda>x. map (\<lambda>y. (x, y)) [0..<length (rows ! x)]) [0..<length rows],
      val = (\<lambda>(x, y). if x < length rows \<and> y < length (rows ! x) then rows ! x ! y else None)\<rparr>"

text \<open>
  Every \<open>Square()\<close> is a fresh object, so no square occurs twice in a grid.
\<close>

definition wf_grid :: "grid \<Rightarrow> bool" where
  "wf_grid g \<longleftrightarrow> distinct (concat (squares g))"

text \<open>
  \<open>Game._main_loop\<close> for a given sequence of actions and random draws: the loop applies
  one action after the other and stops at the first exception (\<open>quit\<close> ends the list).
\<close>

fun play :: "(action \<times> nat) list \<Rightarrow> grid \<Rightarrow> (exn + unit) \<times> grid" where
  "play [] g = (Inr (), g)"
| "play ((d, k) # ms) g =
     (case act d k g of
        (Inl e, g') \<Rightarrow> (Inl e, g')
      | (Inr _, g') \<Rightarrow> play ms g')"

text \<open>The squares that \<open>_init_squares\<close> builds for \<open>w\<close> rows of \<open>h\<close> squares.\<close>

definition all_squares :: "nat \<Rightarrow> nat \<Rightarrow> square list list" where
  "all_squares w h = map (\<lambda>x. map (Pair x) [0..<h]) [0..<w]"

text \<open>A tile value: a power of two that is at least 2.\<close>

definition pow2_tile :: "int \<Rightarrow> bool" where
  "pow2_tile v \<longleftrightarrow> (\<exists>n\<in>{1..nat v}. v = 2 ^ n)"

definition tiles_ok :: "grid \<Rightarrow> bool" where
  "tiles_ok g \<longleftrightarrow> (\<forall>a\<in>set (concat (squares g)). \<forall>v. val g a = Some v \<longrightarrow> pow2_tile v)"

text \<open>The number of non-empty squares among \<open>xs\<close>, and in the whole grid.\<close>

definition count_filled :: "store \<Rightarrow> square list \<Rightarrow> nat" where
  "count_filled s xs = length (filter (\<lambda>a. s a \<noteq> None) xs)"

definition tile_count :: "grid \<Rightarrow> nat" where
  "tile_count g = count_filled (val g) (concat (squares g))"

text \<open>
  The number of lines of a move that merged: the \<open>merged\<close> flag of each line's
  \<open>_shift\<close>, run on the store left by the lines before it.
\<close>

fun merge_count :: "square list list \<Rightarrow> store \<Rightarrow> nat" where
  "merge_count [] s = 0"
| "merge_count (l # ls) s =
     (if merged (fst (shift_loop l s)) then 1 else 0) + merge_count ls (snd (shift l s))"

text \<open>
  In a line of at most four squares, every square between the first empty spot and the
  current index is empty, or is a tile that was skipped after the merge (then it lies
  beyond the first empty spot, at index 2 or more).
\<close>

definition gap_ok :: "square list \<Rightarrow> nat \<Rightarrow> shift_vars \<Rightarrow> store \<Rightarrow> bool" where
  "gap_ok line i v s \<longleftrightarrow>
     (\<forall>f. first_empty_spot v = Some f \<longrightarrow>
        (\<forall>j. f \<le> j \<and> j < i \<longrightarrow> s (line ! j) = None \<or> (f < j \<and> 2 \<le> j)))"

text \<open>
  A line that a move cannot change: its tiles come first, the empty squares after them,
  and no two neighbouring tiles are equal.
\<close>

definition blocked_line :: "store \<Rightarrow> square list \<Rightarrow> bool" where
  "blocked_line s line \<longleftrightarrow>
     (\<exists>n\<in>{0..length line}.
        (\<forall>j\<in>{0..<n}. s (line ! j) \<noteq> None) \<and>
        (\<forall>j\<in>{n..<length line}. s (line ! j) = None) \<and>
        (\<forall>j\<in>{0..<n - 1}. s (line ! j) \<noteq> s (line ! Suc j)))"

text \<open>
  The values of the tiles of a line, in travel order, and the value that the first pair of
  equal neighbours among them merges to.
\<close>

definition tiles :: "store \<Rightarrow> square list \<Rightarrow> int list" where
  "tiles s line = concat (map (\<lambda>a. case s a of None \<Rightarrow> [] | Some x \<Rightarrow> [x]) line)"

fun first_pair :: "int list \<Rightarrow> int option" where
  "first_pair (x # y # zs) = (if x = y then Some (x + y) else first_pair (y # zs))"
| "first_pair _ = None"

text \<open>
  What the loop of \<open>_shift\<close> knows after the tiles \<open>xs\<close>: before the merge no two
  neighbours were equal and \<open>last_filled_spot\<close> holds the last tile; after the merge,
  \<open>finished\<close> tells whether the first equal pair made the goal.
\<close>

definition pair_inv :: "store \<Rightarrow> shift_vars \<Rightarrow> int list \<Rightarrow> bool" where
  "pair_inv s' v xs \<longleftrightarrow>
     (\<not> merged v \<longrightarrow> first_pair xs = None \<and> \<not> finished v \<and>
        (case last_filled_spot v of None \<Rightarrow> xs = [] | Some l \<Rightarrow> xs \<noteq> [] \<and> s' l = Some (last xs))) \<and>
     (merged v \<longrightarrow> first_pair xs \<noteq> None \<and> (finished v \<longleftrightarrow> first_pair xs = Some GOAL))"

section \<open>Properties of the loops\<close>

subsection \<open>A loop over \<open>enumerate\<close> keeps an invariant\<close>

lemma fold_enumerate_offset:
  assumes "P n st"
    and "\<And>i st. i < length xs \<Longrightarrow> P (n + i) st \<Longrightarrow> P (Suc (n + i)) (f (n + i, xs ! i) st)"
  shows "P (n + length xs) (fold f (enumerate n xs) st)"
  using assms
proof (induction xs arbitrary: n st)
  case Nil
  then show ?case by simp
next
  case (Cons x xs)
  have first: "P (Suc n) (f (n, x) st)"
    using Cons.prems(2)[of 0 st] Cons.prems(1) by simp
  have rest: "\<And>i st'. i < length xs \<Longrightarrow> P (Suc n + i) st' \<Longrightarrow> P (Suc (Suc n + i)) (f (Suc n + i, xs ! i) st')"
    using Cons.prems(2)[of "Suc _"] by simp
  from Cons.IH[of "Suc n" "f (n, x) st", OF first rest] show ?case by simp
qed

lemma fold_enumerate_inv:
  assumes "P 0 st"
    and "\<And>i st. i < length xs \<Longrightarrow> P i st \<Longrightarrow> P (Suc i) (f (i, xs ! i) st)"
  shows "P (length xs) (fold f (enumerate 0 xs) st)"
  using fold_enumerate_offset[of P 0 st xs f] assms by simp

lemma vars_ok_init: "vars_ok line 0 shift_init"
  by (simp add: vars_ok_def shift_init_def)

lemma vars_ok_step:
  assumes "vars_ok line i v"
  shows "vars_ok line (Suc i) (fst (shift_body line (i, line ! i) (v, s)))"
  using assms
  by (auto simp: shift_body_def vars_ok_def Let_def less_Suc_eq split: option.splits)

lemma shift_body_unchanged:
  assumes "shift_body line (i, spot) (v, s) = (v', s')" "\<not> made_move v'"
  shows "s' = s" "\<not> made_move v"
  using assms
  by (auto simp: shift_body_def Let_def split: option.splits if_splits)

lemma shift_body_made_mono:
  assumes "shift_body line (i, spot) (v, s) = (v', s')" "made_move v"
  shows "made_move v'"
  using assms
  by (auto simp: shift_body_def Let_def split: option.splits if_splits)

lemma shift_body_None:
  "s spot = None \<Longrightarrow>
   shift_body line (i, spot) (v, s) =
     (if first_empty_spot v = None then v\<lparr>first_empty_spot := Some i\<rparr> else v, s)"
  by (simp add: shift_body_def)

lemma shift_body_stay:
  "s spot = Some x \<Longrightarrow> last_filled_spot v = Some l \<Longrightarrow> s l = Some x \<Longrightarrow> merged v \<Longrightarrow>
   shift_body line (i, spot) (v, s) = (v, s)"
  by (simp add: shift_body_def)

lemma shift_body_merge:
  "s spot = Some x \<Longrightarrow> last_filled_spot v = Some l \<Longrightarrow> s l = Some x \<Longrightarrow> \<not> merged v \<Longrightarrow>
   shift_body line (i, spot) (v, s) =
     (v\<lparr>finished := finished v \<or> x + x = GOAL, merged := True, made_move := True,
        first_empty_spot := (if first_empty_spot v = None then Some i else first_empty_spot v)\<rparr>,
      s(l := Some (x + x), spot := None))"
  by (simp add: shift_body_def Let_def)

lemma shift_body_slide:
  "s spot = Some x \<Longrightarrow> no_merge v s x \<Longrightarrow> first_empty_spot v = Some f \<Longrightarrow>
   shift_body line (i, spot) (v, s) =
     (v\<lparr>last_filled_spot := Some (line ! f), first_empty_spot := Some (Suc f), made_move := True\<rparr>,
      s(line ! f := Some x, spot := None))"
  by (auto simp: shift_body_def no_merge_def Let_def split: option.splits)

lemma shift_body_keep:
  "s spot = Some x \<Longrightarrow> no_merge v s x \<Longrightarrow> first_empty_spot v = None \<Longrightarrow>
   shift_body line (i, spot) (v, s) = (v\<lparr>last_filled_spot := Some spot\<rparr>, s)"
  by (auto simp: shift_body_def no_merge_def Let_def split: option.splits)

lemma shift_body_cases:
  assumes "vars_ok line i v" "shift_body line (i, line ! i) (v, s) = (v', s')"
  obtains (same) "s' = s" "made_move v' = made_move v" "merged v' = merged v"
  | (merge) j x where "j < i" "s (line ! j) = Some x" "s (line ! i) = Some x"
      "last_filled_spot v = Some (line ! j)" "\<not> merged v" "merged v'" "made_move v'"
      "s' = s(line ! j := Some (x + x), line ! i := None)"
  | (slide) f x where "f < i" "s (line ! i) = Some x" "first_empty_spot v = Some f"
      "first_empty_spot v' = Some (Suc f)" "made_move v'" "merged v' = merged v"
      "s' = s(line ! f := Some x, line ! i := None)"
proof (cases "s (line ! i)")
  case None
  from assms(2) show ?thesis
    by (intro same) (auto simp: shift_body_None[of s "line ! i", OF None] split: if_splits)
next
  case (Some x)
  show ?thesis
  proof (cases "no_merge v s x")
    case True
    show ?thesis
    proof (cases "first_empty_spot v")
      case None
      from assms(2) show ?thesis
        by (intro same) (auto simp: shift_body_keep[of s "line ! i", OF Some True None])
    next
      case (Some f)
      from assms(1) Some have "f < i" by (simp add: vars_ok_def)
      with assms(2) show ?thesis
        by (intro slide[of f x])
          (auto simp: shift_body_slide[of s "line ! i", OF \<open>s (line ! i) = Some x\<close> True Some]
             \<open>s (line ! i) = Some x\<close> Some)
    qed
  next
    case False
    then obtain l where l: "last_filled_spot v = Some l" "s l = Some x"
      by (auto simp: no_merge_def split: option.splits)
    from assms(1) l(1) obtain j where j: "j < i" "l = line ! j"
      by (auto simp: vars_ok_def)
    show ?thesis
    proof (cases "merged v")
      case True
      from assms(2) show ?thesis
        by (intro same) (auto simp: shift_body_stay[of s "line ! i", OF Some l True])
    next
      case False
      from assms(2) show ?thesis
        by (intro merge[of j x])
          (use j l Some False in \<open>auto simp: shift_body_merge[of s "line ! i", OF Some l False]\<close>)
    qed
  qed
qed

lemma shift_body_frame:
  assumes "i < length line" "vars_ok line i v"
    and "shift_body line (i, line ! i) (v, s) = (v', s')" "a \<notin> set line"
  shows "s' a = s a"
  using assms(2,3)
proof (cases rule: shift_body_cases)
  case same
  then show ?thesis by simp
next
  case (merge j x)
  with assms(1,4) show ?thesis by (auto simp: fun_upd_def)
next
  case (slide f x)
  with assms(1,4) show ?thesis by (auto simp: fun_upd_def)
qed

lemma shift_body_empty:
  assumes "i < length line" "vars_ok line i v" "distinct line"
    and "shift_body line (i, line ! i) (v, s) = (v', s')"
    and "made_move v \<longrightarrow> (\<exists>j<i. s (line ! j) = None)" "made_move v'"
  shows "\<exists>j<Suc i. s' (line ! j) = None"
  using assms(2,4)
proof (cases rule: shift_body_cases)
  case same
  with assms(5,6) show ?thesis
    using less_Suc_eq by auto
next
  case (merge j x)
  then show ?thesis by auto
next
  case (slide f x)
  then show ?thesis by auto
qed

lemma shift_loop_vars_ok: "vars_ok line (length line) (fst (shift_loop line s))"
  unfolding shift_loop_def
proof (rule fold_enumerate_inv[where P = "\<lambda>i st. vars_ok line i (fst st)"])
  show "vars_ok line 0 (fst (shift_init, s))" by (simp add: vars_ok_init)
next
  fix i and st :: "shift_vars \<times> store" assume "i < length line" "vars_ok line i (fst st)"
  then show "vars_ok line (Suc i) (fst (shift_body line (i, line ! i) st))"
    using vars_ok_step[of line i "fst st" "snd st"] by simp
qed

lemma shift_loop_unchanged:
  assumes "\<not> made_move (fst (shift_loop line s))"
  shows "snd (shift_loop line s) = s"
proof -
  let ?P = "\<lambda>(i::nat) st. \<not> made_move (fst st) \<longrightarrow> snd st = s"
  have "?P (length line) (shift_loop line s)"
    unfolding shift_loop_def
  proof (rule fold_enumerate_inv[where P = ?P])
    show "?P 0 (shift_init, s)" by simp
  next
    fix i and st :: "shift_vars \<times> store" assume P: "?P i st"
    obtain v s1 where st: "st = (v, s1)" by (cases st)
    obtain v' s2 where step: "shift_body line (i, line ! i) (v, s1) = (v', s2)" by fastforce
    from shift_body_unchanged[OF step] P st have "\<not> made_move v' \<Longrightarrow> s2 = s" by simp
    then show "?P (Suc i) (shift_body line (i, line ! i) st)" by (auto simp: st step)
  qed
  with assms show ?thesis by simp
qed

lemma shift_loop_frame:
  assumes a: "a \<notin> set line"
  shows "snd (shift_loop line s) a = s a"
proof -
  let ?P = "\<lambda>i st. vars_ok line i (fst st) \<and> snd st a = s a"
  have "?P (length line) (shift_loop line s)"
    unfolding shift_loop_def
  proof (rule fold_enumerate_inv[where P = ?P])
    show "?P 0 (shift_init, s)" by (simp add: vars_ok_init)
  next
    fix i and st :: "shift_vars \<times> store" assume i: "i < length line" and P: "?P i st"
    obtain v s1 where st: "st = (v, s1)" by (cases st)
    obtain v' s2 where step: "shift_body line (i, line ! i) (v, s1) = (v', s2)" by fastforce
    from P st have ok: "vars_ok line i v" and eq: "s1 a = s a" by simp_all
    have "vars_ok line (Suc i) v'" using vars_ok_step[OF ok, of s1] step by simp
    moreover have "s2 a = s a" using shift_body_frame[OF i ok step a] eq by simp
    ultimately show "?P (Suc i) (shift_body line (i, line ! i) st)" by (simp add: st step)
  qed
  then show ?thesis by simp
qed

lemma shift_loop_empty:
  assumes "distinct line" "made_move (fst (shift_loop line s))"
  shows "\<exists>j<length line. snd (shift_loop line s) (line ! j) = None"
proof -
  let ?P = "\<lambda>i st. vars_ok line i (fst st) \<and> (made_move (fst st) \<longrightarrow> (\<exists>j<i. snd st (line ! j) = None))"
  have "?P (length line) (shift_loop line s)"
    unfolding shift_loop_def
  proof (rule fold_enumerate_inv[where P = ?P])
    show "?P 0 (shift_init, s)" by (simp add: vars_ok_def shift_init_def)
  next
    fix i and st :: "shift_vars \<times> store" assume i: "i < length line" and P: "?P i st"
    obtain v s1 where st: "st = (v, s1)" by (cases st)
    obtain v' s2 where step: "shift_body line (i, line ! i) (v, s1) = (v', s2)" by fastforce
    from P st have ok: "vars_ok line i v"
      and e: "made_move v \<longrightarrow> (\<exists>j<i. s1 (line ! j) = None)" by simp_all
    have "vars_ok line (Suc i) v'" using vars_ok_step[OF ok, of s1] step by simp
    moreover have "made_move v' \<Longrightarrow> \<exists>j<Suc i. s2 (line ! j) = None"
      using shift_body_empty[OF i ok assms(1) step e] by simp
    ultimately show "?P (Suc i) (shift_body line (i, line ! i) st)" by (simp add: st step)
  qed
  with assms(2) show ?thesis by simp
qed

subsection \<open>The result of \<open>_shift\<close> and the loop of \<open>_move\<close>\<close>

lemma shift_made_move: "fst (fst (shift line s)) = made_move (fst (shift_loop line s))"
  by (simp add: shift_def split: prod.splits)

lemma shift_finished: "snd (fst (shift line s)) = finished (fst (shift_loop line s))"
  by (simp add: shift_def split: prod.splits)

lemma shift_store: "snd (shift line s) = snd (shift_loop line s)"
  by (simp add: shift_def split: prod.splits)

lemma shift_finished_made: "snd (fst (shift line s)) \<Longrightarrow> fst (fst (shift line s))"
  using shift_loop_vars_ok[of line s] by (simp add: shift_made_move shift_finished vars_ok_def)

lemma shift_unchanged: "\<not> fst (fst (shift line s)) \<Longrightarrow> snd (shift line s) = s"
  by (simp add: shift_made_move shift_store shift_loop_unchanged)

lemma shift_frame: "a \<notin> set line \<Longrightarrow> snd (shift line s) a = s a"
  by (simp add: shift_store shift_loop_frame)

lemma shift_empty:
  assumes "distinct line" "fst (fst (shift line s))"
  shows "\<exists>a\<in>set line. snd (shift line s) a = None"
proof -
  from assms(2) have "made_move (fst (shift_loop line s))" by (simp add: shift_made_move)
  from shift_loop_empty[OF assms(1) this] obtain j where
    "j < length line" "snd (shift_loop line s) (line ! j) = None" by blast
  then show ?thesis unfolding shift_store using nth_mem by blast
qed

lemma move_loop_Nil: "move_loop [] s = (False, False, s)"
  by (simp add: move_loop_def)

lemma move_loop_snoc:
  "move_loop (ls @ [l]) s =
     (case move_loop ls s of (fin, made, s1) \<Rightarrow>
        (snd (fst (shift l s1)) \<or> fin, fst (fst (shift l s1)) \<or> made, snd (shift l s1)))"
  by (simp add: move_loop_def split: prod.splits)

lemma move_loop_finished_made: "fst (move_loop ls s) \<Longrightarrow> fst (snd (move_loop ls s))"
proof (induction ls rule: rev_induct)
  case Nil
  then show ?case by (simp add: move_loop_Nil)
next
  case (snoc l ls)
  obtain fin made s1 where m: "move_loop ls s = (fin, made, s1)" by (cases "move_loop ls s") auto
  from snoc m have "snd (fst (shift l s1)) \<or> fin" by (simp add: move_loop_snoc)
  then have "fst (fst (shift l s1)) \<or> made"
    using shift_finished_made[of l s1] snoc.IH m by auto
  then show ?case by (simp add: move_loop_snoc m)
qed

lemma move_loop_unchanged: "\<not> fst (snd (move_loop ls s)) \<Longrightarrow> snd (snd (move_loop ls s)) = s"
proof (induction ls rule: rev_induct)
  case Nil
  then show ?case by (simp add: move_loop_Nil)
next
  case (snoc l ls)
  obtain fin made s1 where m: "move_loop ls s = (fin, made, s1)" by (cases "move_loop ls s") auto
  from snoc.prems m have a: "\<not> fst (fst (shift l s1))" and b: "\<not> made"
    by (simp_all add: move_loop_snoc)
  from snoc.IH b m have "s1 = s" by simp
  with shift_unchanged[OF a] show ?case by (simp add: move_loop_snoc m)
qed

lemma move_loop_frame: "a \<notin> set (concat ls) \<Longrightarrow> snd (snd (move_loop ls s)) a = s a"
proof (induction ls rule: rev_induct)
  case Nil
  then show ?case by (simp add: move_loop_Nil)
next
  case (snoc l ls)
  obtain fin made s1 where m: "move_loop ls s = (fin, made, s1)" by (cases "move_loop ls s") auto
  from snoc m have "s1 a = s a" and "a \<notin> set l" by simp_all
  with shift_frame[of a l s1] show ?case by (simp add: move_loop_snoc m)
qed

lemma move_loop_empty:
  assumes "\<forall>l\<in>set ls. distinct l" "fst (snd (move_loop ls s))"
  shows "\<exists>a\<in>set (concat ls). snd (snd (move_loop ls s)) a = None"
  using assms
proof (induction ls rule: rev_induct)
  case Nil
  then show ?case by (simp add: move_loop_Nil)
next
  case (snoc l ls)
  obtain fin made s1 where m: "move_loop ls s = (fin, made, s1)" by (cases "move_loop ls s") auto
  show ?case
  proof (cases "fst (fst (shift l s1))")
    case True
    from snoc.prems(1) have "distinct l" by simp
    from shift_empty[OF this True] show ?thesis by (auto simp: move_loop_snoc m)
  next
    case False
    with snoc.prems(2) have made by (simp add: move_loop_snoc m)
    with snoc.IH snoc.prems(1) m obtain a where "a \<in> set (concat ls)" "s1 a = None" by auto
    with shift_unchanged[OF False] show ?thesis by (auto simp: move_loop_snoc m)
  qed
qed

subsection \<open>Running \<open>_shift\<close> on a line of four squares\<close>

lemmas shift_unfold = shift_def shift_loop_def shift_body_def shift_init_def Let_def GOAL_def

lemma distinct4:
  assumes "distinct [a, b, c, d]"
  shows "a \<noteq> b" "a \<noteq> c" "a \<noteq> d" "b \<noteq> c" "b \<noteq> d" "c \<noteq> d"
    "b \<noteq> a" "c \<noteq> a" "d \<noteq> a" "c \<noteq> b" "d \<noteq> b" "d \<noteq> c"
  using assms by auto

lemma shift_goal_line:
  assumes "distinct [a, b, c, d]"
    and "s a = Some 1024" "s b = Some 1024" "s c = None" "s d = None"
  shows "fst (shift [a, b, c, d] s) = (True, True)"
    and "map (snd (shift [a, b, c, d] s)) [a, b, c, d] = [Some 2048, None, None, None]"
  using assms(2-) distinct4[OF assms(1)] by (simp_all add: shift_unfold)

lemma shift_equal_line:
  assumes "distinct [a, b, c, d]"
    and "s a = Some x" "s b = Some x" "s c = Some x" "s d = Some x" "x \<noteq> 0"
  shows "fst (fst (shift [a, b, c, d] s))"
    and "map (snd (shift [a, b, c, d] s)) [a, b, c, d] = [Some (x + x), Some x, None, Some x]"
  using assms(2-) distinct4[OF assms(1)] by (simp_all add: shift_unfold)

lemma move_loop_append:
  "move_loop (xs @ ys) s =
     (case move_loop xs s of (f1, m1, s1) \<Rightarrow>
        case move_loop ys s1 of (f2, m2, s2) \<Rightarrow> (f2 \<or> f1, m2 \<or> m1, s2))"
proof (induction ys rule: rev_induct)
  case Nil
  then show ?case by (simp add: move_loop_Nil split: prod.splits)
next
  case (snoc y ys)
  have "move_loop (xs @ ys @ [y]) s = move_loop ((xs @ ys) @ [y]) s" by simp
  also have "\<dots> = (case move_loop (xs @ ys) s of (fin, made, s1) \<Rightarrow>
        (snd (fst (shift y s1)) \<or> fin, fst (fst (shift y s1)) \<or> made, snd (shift y s1)))"
    by (rule move_loop_snoc)
  finally show ?case
    by (simp add: snoc.IH move_loop_snoc split: prod.splits)
qed

lemma move_loop_single:
  "move_loop [l] s = (snd (fst (shift l s)), fst (fst (shift l s)), snd (shift l s))"
  using move_loop_snoc[of "[]" l s] by (simp add: move_loop_Nil)

lemma move_loop_line:
  assumes "distinct (concat ls)" "l \<in> set ls"
  obtains s1 where "\<forall>a\<in>set l. s1 a = s a"
    and "\<forall>a\<in>set l. snd (snd (move_loop ls s)) a = snd (shift l s1) a"
    and "snd (fst (shift l s1)) \<Longrightarrow> fst (move_loop ls s)"
    and "fst (fst (shift l s1)) \<Longrightarrow> fst (snd (move_loop ls s))"
proof -
  from assms(2) obtain pre post where ls: "ls = pre @ l # post" by (meson split_list)
  obtain f1 m1 s1 where pre: "move_loop pre s = (f1, m1, s1)" by (cases "move_loop pre s") auto
  obtain f2 m2 s2 where post: "move_loop post (snd (shift l s1)) = (f2, m2, s2)"
    by (cases "move_loop post (snd (shift l s1))") auto
  have all: "move_loop ls s =
      (f2 \<or> snd (fst (shift l s1)) \<or> f1, m2 \<or> fst (fst (shift l s1)) \<or> m1, s2)"
    using move_loop_append[of pre "[l] @ post" s] move_loop_append[of "[l]" post s1]
    by (simp add: ls pre post move_loop_single)
  from assms(1) have d1: "set l \<inter> set (concat pre) = {}" and d2: "set l \<inter> set (concat post) = {}"
    by (auto simp: ls)
  have a: "\<forall>a\<in>set l. s1 a = s a"
    using move_loop_frame[of _ pre s] d1 pre by fastforce
  have b: "\<forall>a\<in>set l. s2 a = snd (shift l s1) a"
    using move_loop_frame[of _ post "snd (shift l s1)"] d2 post by fastforce
  show thesis
    by (rule that[of s1]) (use a b all in auto)
qed

lemma move_finished:
  "fst (move_loop ls (val g)) \<Longrightarrow>
   move ls k g = (Inl GameFinishedException, g\<lparr>val := snd (snd (move_loop ls (val g)))\<rparr>)"
  by (cases "move_loop ls (val g)") (simp add: move_def)

lemma distinct_concat_mem: "distinct (concat ls) \<Longrightarrow> l \<in> set ls \<Longrightarrow> distinct l"
  by (induction ls) auto

subsection \<open>The lines of a direction hold every square of the grid once\<close>

lemma mset_concat_update:
  "i < length cols \<Longrightarrow> mset (concat (cols[i := cols ! i @ [x]])) = add_mset x (mset (concat cols))"
proof (induction cols arbitrary: i)
  case Nil
  then show ?case by simp
next
  case (Cons c cols)
  then show ?case by (cases i) simp_all
qed

lemma append_column_Inr:
  "append_column (i, x) (Inr cols) =
     (if i < length cols then Inr (cols[i := cols ! i @ [x]]) else Inl IndexError)"
  by (simp add: append_column_def)

lemma append_column_Inl: "append_column p (Inl e) = Inl e"
  by (cases p) (simp add: append_column_def)

lemma fold_append_column_Inl: "fold append_column xs (Inl e) = Inl e"
  by (induction xs) (simp_all add: append_column_Inl)

lemma fold_append_column_mset:
  "fold append_column (enumerate n row) (Inr cols) = Inr cols' \<Longrightarrow>
   mset (concat cols') = mset row + mset (concat cols) \<and> length cols' = length cols"
proof (induction row arbitrary: n cols)
  case Nil
  then show ?case by simp
next
  case (Cons x row)
  show ?case
  proof (cases "n < length cols")
    case True
    with Cons.prems have "fold append_column (enumerate (Suc n) row) (Inr (cols[n := cols ! n @ [x]])) = Inr cols'"
      by (simp add: append_column_Inr)
    from Cons.IH[OF this] True show ?thesis by (simp add: mset_concat_update)
  next
    case False
    with Cons.prems show ?thesis by (simp add: append_column_Inr fold_append_column_Inl)
  qed
qed

lemma fold_rows_Inl: "fold (\<lambda>row r. fold append_column (enumerate 0 row) r) rows (Inl e) = Inl e"
  by (induction rows) (simp_all add: fold_append_column_Inl)

lemma fold_rows_mset:
  "fold (\<lambda>row r. fold append_column (enumerate 0 row) r) rows (Inr cols) = Inr cols' \<Longrightarrow>
   mset (concat cols') = mset (concat rows) + mset (concat cols) \<and> length cols' = length cols"
proof (induction rows arbitrary: cols)
  case Nil
  then show ?case by simp
next
  case (Cons row rows)
  show ?case
  proof (cases "fold append_column (enumerate 0 row) (Inr cols)")
    case (Inl e)
    with Cons.prems show ?thesis by (simp add: fold_rows_Inl)
  next
    case (Inr c1)
    from fold_append_column_mset[OF Inr] Cons.IH[of c1] Cons.prems Inr show ?thesis by simp
  qed
qed

lemma concat_map_Nil: "concat (map (\<lambda>_. []) xs) = []"
  by (induction xs) simp_all

lemma get_columns_mset:
  "get_columns g = Inr cols \<Longrightarrow> mset (concat cols) = mset (concat (squares g))"
  unfolding get_columns_def by (drule fold_rows_mset) (simp add: concat_map_Nil)

lemma mset_concat_map_rev: "mset (concat (map rev ls)) = mset (concat ls)"
  by (induction ls) simp_all

lemma lines_of_mset:
  "lines_of d g = Inr ls \<Longrightarrow> mset (concat ls) = mset (concat (squares g))"
proof (cases d)
  case Left
  then show "lines_of d g = Inr ls \<Longrightarrow> ?thesis" by auto
next
  case Right
  then show "lines_of d g = Inr ls \<Longrightarrow> ?thesis" by (auto simp: mset_concat_map_rev)
next
  case Top
  then show "lines_of d g = Inr ls \<Longrightarrow> ?thesis" by (simp add: get_columns_mset)
next
  case Bottom
  then show "lines_of d g = Inr ls \<Longrightarrow> ?thesis"
    by (cases "get_columns g") (auto simp: mset_concat_map_rev get_columns_mset)
qed

lemma lines_of_distinct:
  "wf_grid g \<Longrightarrow> lines_of d g = Inr ls \<Longrightarrow> distinct (concat ls)"
  using lines_of_mset[of d g ls] by (metis wf_grid_def mset_eq_imp_distinct_iff)

lemma lines_of_set:
  "lines_of d g = Inr ls \<Longrightarrow> set (concat ls) = set (concat (squares g))"
  using lines_of_mset[of d g ls] by (metis mset_eq_setD)

subsection \<open>Dispatch and the outcome of a move\<close>

lemma act_lines: "lines_of d g = Inr ls \<Longrightarrow> act d k g = move ls k g"
  by (cases d; cases "get_columns g")
     (auto simp: Grid_left_def Grid_right_def Grid_top_def Grid_bottom_def)

lemma act_lines_raise: "lines_of d g = Inl e \<Longrightarrow> act d k g = (Inl e, g)"
  by (cases d; cases "get_columns g")
     (auto simp: Grid_left_def Grid_right_def Grid_top_def Grid_bottom_def)

lemma fold_append_column_raise:
  "fold append_column (enumerate n row) (Inr cols) = Inl e \<Longrightarrow> e = IndexError"
proof (induction row arbitrary: n cols)
  case Nil
  then show ?case by simp
next
  case (Cons x row)
  then show ?case
    by (cases "n < length cols") (auto simp: append_column_Inr fold_append_column_Inl)
qed

lemma fold_rows_raise:
  "fold (\<lambda>row r. fold append_column (enumerate 0 row) r) rows (Inr cols) = Inl e \<Longrightarrow>
   e = IndexError"
proof (induction rows arbitrary: cols)
  case Nil
  then show ?case by simp
next
  case (Cons row rows)
  show ?case
  proof (cases "fold append_column (enumerate 0 row) (Inr cols)")
    case (Inl e')
    with Cons.prems fold_append_column_raise[OF Inl] show ?thesis by (simp add: fold_rows_Inl)
  next
    case (Inr c1)
    with Cons.prems Cons.IH[of c1] show ?thesis by simp
  qed
qed

lemma get_columns_raise: "get_columns g = Inl e \<Longrightarrow> e = IndexError"
  unfolding get_columns_def by (rule fold_rows_raise)

lemma lines_of_raise: "lines_of d g = Inl e \<Longrightarrow> e = IndexError"
  by (cases d; cases "get_columns g") (auto dest: get_columns_raise)

lemma move_loop_made_empty:
  assumes "wf_grid g" "lines_of d g = Inr ls" "fst (snd (move_loop ls (val g)))"
  shows "get_empty_squares (g\<lparr>val := snd (snd (move_loop ls (val g)))\<rparr>) \<noteq> []"
proof -
  from lines_of_distinct[OF assms(1,2)] have "\<forall>l\<in>set ls. distinct l"
    using distinct_concat_mem by blast
  from move_loop_empty[OF this assms(3)] obtain a where
    a: "a \<in> set (concat ls)" "snd (snd (move_loop ls (val g))) a = None" by blast
  from a(1) have "a \<in> set (concat (squares g))"
    by (simp only: lines_of_set[OF assms(2)])
  with a(2) have "a \<in> set (get_empty_squares (g\<lparr>val := snd (snd (move_loop ls (val g)))\<rparr>))"
    by (simp add: get_empty_squares_def)
  then show ?thesis by auto
qed

lemma new_square_ok: "get_empty_squares g \<noteq> [] \<Longrightarrow> fst (new_square k g) = Inr ()"
  by (simp add: new_square_def Let_def)

lemma move_outcome:
  assumes "wf_grid g" "lines_of d g = Inr ls"
  shows "fst (move ls k g) =
    (if fst (move_loop ls (val g)) then Inl GameFinishedException else Inr ())"
proof -
  obtain fin made s where m: "move_loop ls (val g) = (fin, made, s)"
    by (cases "move_loop ls (val g)") auto
  show ?thesis
  proof (cases "\<not> fin \<and> made")
    case True
    with move_loop_made_empty[OF assms] m have "get_empty_squares (g\<lparr>val := s\<rparr>) \<noteq> []" by simp
    from new_square_ok[OF this, of k] True show ?thesis by (simp add: move_def m)
  next
    case False
    then show ?thesis by (auto simp: move_def m)
  qed
qed

lemma new_square_squares: "squares (snd (new_square k g)) = squares g"
  by (simp add: new_square_def Let_def)

lemma move_squares: "squares (snd (move ls k g)) = squares g"
  by (cases "move_loop ls (val g)") (simp add: move_def Let_def new_square_squares)

lemma act_squares: "squares (snd (act d k g)) = squares g"
  by (cases "lines_of d g") (simp_all add: act_lines act_lines_raise move_squares)

lemma act_wf: "wf_grid g \<Longrightarrow> wf_grid (snd (act d k g))"
  by (simp add: wf_grid_def act_squares)

lemma act_not_lost: "wf_grid g \<Longrightarrow> fst (act d k g) \<noteq> Inl GameOverException"
proof (cases "lines_of d g")
  case (Inl e)
  with lines_of_raise[OF Inl] show ?thesis by (simp add: act_lines_raise)
next
  case (Inr ls)
  assume "wf_grid g"
  from move_outcome[OF this Inr, of k] show ?thesis by (simp add: act_lines[OF Inr])
qed

lemma play_not_lost: "wf_grid g \<Longrightarrow> fst (play ms g) \<noteq> Inl GameOverException"
proof (induction ms arbitrary: g)
  case Nil
  then show ?case by simp
next
  case (Cons m ms)
  obtain d k where m: "m = (d, k)" by (cases m)
  obtain r g' where a: "act d k g = (r, g')" by (cases "act d k g")
  from act_wf[OF Cons.prems, of d k] a have wf': "wf_grid g'" by simp
  from act_not_lost[OF Cons.prems, of d k] a have r: "r \<noteq> Inl GameOverException" by simp
  show ?case
  proof (cases r)
    case (Inl e)
    with r a m show ?thesis by simp
  next
    case (Inr u)
    with Cons.IH[OF wf'] a m show ?thesis by simp
  qed
qed

subsection \<open>The constructed grid\<close>

lemma fold_append_Square:
  "squares g \<noteq> [] \<Longrightarrow>
   squares (fold (append_Square x) [0..<n] g) =
     butlast (squares g) @ [last (squares g) @ map (Pair x) [0..<n]] \<and>
   width (fold (append_Square x) [0..<n] g) = width g \<and>
   height (fold (append_Square x) [0..<n] g) = height g \<and>
   (val g = (\<lambda>_. None) \<longrightarrow> val (fold (append_Square x) [0..<n] g) = (\<lambda>_. None))"
proof (induction n)
  case 0
  then show ?case by simp
next
  case (Suc n)
  then show ?case by (auto simp: append_Square_def)
qed

lemma init_row_fields:
  "squares (init_row x g) = squares g @ [map (Pair x) [0..<nat (height g)]]"
  "width (init_row x g) = width g"
  "height (init_row x g) = height g"
  "val g = (\<lambda>_. None) \<Longrightarrow> val (init_row x g) = (\<lambda>_. None)"
proof -
  let ?g = "g\<lparr>squares := squares g @ [[]]\<rparr>"
  have ne: "squares ?g \<noteq> []" by simp
  note f = fold_append_Square[OF ne, of x "nat (height g)"]
  from f show "squares (init_row x g) = squares g @ [map (Pair x) [0..<nat (height g)]]"
    by (simp add: init_row_def)
  from f show "width (init_row x g) = width g" by (simp add: init_row_def)
  from f show "height (init_row x g) = height g" by (simp add: init_row_def)
  from f show "val g = (\<lambda>_. None) \<Longrightarrow> val (init_row x g) = (\<lambda>_. None)"
    by (simp add: init_row_def)
qed

lemma fold_init_row:
  "squares (fold init_row [0..<m] g) = squares g @ all_squares m (nat (height g))"
  "height (fold init_row [0..<m] g) = height g"
  "width (fold init_row [0..<m] g) = width g"
  "val g = (\<lambda>_. None) \<Longrightarrow> val (fold init_row [0..<m] g) = (\<lambda>_. None)"
proof (induction m)
  case 0
  {
    case 1 show ?case by (simp add: all_squares_def)
  next
    case 2 show ?case by simp
  next
    case 3 show ?case by simp
  next
    case 4 then show ?case by simp
  }
next
  case (Suc m)
  {
    case 1 show ?case using Suc(1,2) by (simp add: init_row_fields all_squares_def)
  next
    case 2 show ?case using Suc(2) by (simp add: init_row_fields)
  next
    case 3 show ?case using Suc(3) by (simp add: init_row_fields)
  next
    case 4 then show ?case using Suc(4) by (simp add: init_row_fields)
  }
qed

lemma init_squares_closed:
  "squares (init_squares \<lparr>width = w, height = h, squares = [], val = (\<lambda>_. None)\<rparr>) =
     all_squares (nat w) (nat h)"
  "val (init_squares \<lparr>width = w, height = h, squares = [], val = (\<lambda>_. None)\<rparr>) = (\<lambda>_. None)"
  "width (init_squares \<lparr>width = w, height = h, squares = [], val = (\<lambda>_. None)\<rparr>) = w"
  "height (init_squares \<lparr>width = w, height = h, squares = [], val = (\<lambda>_. None)\<rparr>) = h"
  by (simp_all add: init_squares_def fold_init_row)

lemma all_squares_Suc: "all_squares (Suc w) h = all_squares w h @ [map (Pair w) [0..<h]]"
  by (simp add: all_squares_def)

lemma set_all_squares: "set (concat (all_squares w h)) = {0..<w} \<times> {0..<h}"
  by (induction w) (auto simp: all_squares_Suc all_squares_def less_Suc_eq)

lemma distinct_all_squares: "distinct (concat (all_squares w h))"
proof (induction w)
  case 0
  show ?case by (simp add: all_squares_def)
next
  case (Suc w)
  have "set (concat (all_squares w h)) \<inter> set (map (Pair w) [0..<h]) = {}"
    unfolding set_all_squares by auto
  moreover have "distinct (map (Pair w) [0..<h])"
    by (simp add: distinct_map inj_on_def)
  ultimately show ?case using Suc by (simp add: all_squares_Suc)
qed

lemma length_all_squares: "length (concat (all_squares w h)) = w * h"
  by (induction w) (simp_all add: all_squares_Suc, simp add: all_squares_def)

lemma all_squares_rows: "length (all_squares w h) = w" "\<forall>r\<in>set (all_squares w h). length r = h"
  by (auto simp: all_squares_def)

lemma init_squares_eq:
  "init_squares \<lparr>width = w, height = h, squares = [], val = (\<lambda>_. None)\<rparr> =
     \<lparr>width = w, height = h, squares = all_squares (nat w) (nat h), val = (\<lambda>_. None)\<rparr>"
  by (rule grid.equality) (simp_all add: init_squares_closed)

lemma filter_neq_distinct:
  assumes "distinct xs" "a \<in> set xs"
  shows "length (filter (\<lambda>y. y \<noteq> a) xs) = length xs - 1"
proof -
  have "filter (\<lambda>y. y \<noteq> a) xs = removeAll a xs"
    by (induction xs) auto
  also have "\<dots> = remove1 a xs" using assms(1) by (simp add: distinct_remove1_removeAll)
  finally show ?thesis using assms(2) by (simp add: length_remove1)
qed

lemma Grid_init_result:
  fixes w h :: nat
  assumes "2 \<le> w * h" "k1 < w * h" "k2 < w * h - 1"
  defines "cells \<equiv> concat (all_squares w h)"
  defines "a \<equiv> cells ! k1"
  defines "b \<equiv> filter (\<lambda>y. y \<noteq> a) cells ! k2"
  shows "Grid_init (int w) (int h) k1 k2 =
           Inr \<lparr>width = int w, height = int h, squares = all_squares w h,
                val = (\<lambda>_. None)(a := Some 2, b := Some 2)\<rparr>"
    and "a \<in> set cells" and "b \<in> set cells" and "a \<noteq> b"
proof -
  let ?g0 = "\<lparr>width = int w, height = int h, squares = all_squares w h, val = (\<lambda>_. None)\<rparr>"
  have len: "length cells = w * h" by (simp add: cells_def length_all_squares)
  have dist: "distinct cells" by (simp add: cells_def distinct_all_squares)
  from assms(2) len show a: "a \<in> set cells" by (simp add: a_def)
  have e0: "get_empty_squares ?g0 = cells" by (simp add: get_empty_squares_def cells_def)
  from assms(1) len have ne0: "cells \<noteq> []" by auto
  let ?g1 = "\<lparr>width = int w, height = int h, squares = all_squares w h,
               val = (\<lambda>_. None)(a := Some 2)\<rparr>"
  let ?g2 = "\<lparr>width = int w, height = int h, squares = all_squares w h,
               val = (\<lambda>_. None)(a := Some 2, b := Some 2)\<rparr>"
  have n1: "new_square k1 ?g0 = (Inr (), ?g1)"
    using ne0 by (simp add: new_square_def e0 a_def Let_def)
  have e1: "get_empty_squares ?g1 = filter (\<lambda>y. y \<noteq> a) cells"
    by (simp add: get_empty_squares_def cells_def)
  from filter_neq_distinct[OF dist a] len
  have len1: "length (filter (\<lambda>y. y \<noteq> a) cells) = w * h - 1" by simp
  with assms(3) have "b \<in> set (filter (\<lambda>y. y \<noteq> a) cells)"
    unfolding b_def by (intro nth_mem) simp
  then show "b \<in> set cells" and "a \<noteq> b" by auto
  from len1 assms(1) have ne1: "filter (\<lambda>y. y \<noteq> a) cells \<noteq> []" by auto
  have n2: "new_square k2 ?g1 = (Inr (), ?g2)"
    using ne1 by (simp add: new_square_def e1 b_def Let_def)
  show "Grid_init (int w) (int h) k1 k2 =
           Inr \<lparr>width = int w, height = int h, squares = all_squares w h,
                val = (\<lambda>_. None)(a := Some 2, b := Some 2)\<rparr>"
    by (simp add: Grid_init_def init_squares_eq n1 n2)
qed

lemma new_square_value:
  "val (snd (new_square k g)) c = val g c \<or> val (snd (new_square k g)) c = Some 2"
  by (simp add: new_square_def Let_def)

lemma fold_append_column_overflow:
  "n \<le> length cols \<Longrightarrow> length cols < n + length row \<Longrightarrow>
   fold append_column (enumerate n row) (Inr cols) = Inl IndexError"
proof (induction row arbitrary: n cols)
  case Nil
  then show ?case by simp
next
  case (Cons x row)
  show ?case
  proof (cases "n < length cols")
    case True
    with Cons.prems Cons.IH[of "Suc n" "cols[n := cols ! n @ [x]]"] show ?thesis
      by (simp add: append_column_Inr)
  next
    case False
    then show ?thesis by (simp add: append_column_Inr fold_append_column_Inl)
  qed
qed

lemma fold_append_column_fits:
  "n + length row \<le> length cols \<Longrightarrow>
   \<exists>cols'. fold append_column (enumerate n row) (Inr cols) = Inr cols' \<and> length cols' = length cols"
proof (induction row arbitrary: n cols)
  case Nil
  then show ?case by simp
next
  case (Cons x row)
  from Cons.prems have "n < length cols" by simp
  with Cons.prems Cons.IH[of "Suc n" "cols[n := cols ! n @ [x]]"] show ?case
    by (simp add: append_column_Inr)
qed

lemma fold_rows_fit:
  "\<forall>r\<in>set rows. length r \<le> length cols \<Longrightarrow>
   \<exists>cols'. fold (\<lambda>row r. fold append_column (enumerate 0 row) r) rows (Inr cols) = Inr cols' \<and>
           length cols' = length cols"
proof (induction rows arbitrary: cols)
  case Nil
  then show ?case by simp
next
  case (Cons row rows)
  from Cons.prems have "0 + length row \<le> length cols" by simp
  from fold_append_column_fits[OF this] obtain c1 where
    c1: "fold append_column (enumerate 0 row) (Inr cols) = Inr c1" "length c1 = length cols" by blast
  from Cons.prems c1(2) have "\<forall>r\<in>set rows. length r \<le> length c1" by simp
  from Cons.IH[OF this] c1 show ?case by simp
qed

lemma Grid_init_squares:
  assumes "Grid_init w h k1 k2 = Inr g"
  shows "squares g = all_squares (nat w) (nat h)" and "0 < nat w" and "0 < nat h"
proof -
  let ?g0 = "\<lparr>width = w, height = h, squares = all_squares (nat w) (nat h), val = (\<lambda>_. None)\<rparr>"
  obtain r1 g1 where n1: "new_square k1 ?g0 = (r1, g1)" by (cases "new_square k1 ?g0")
  obtain r2 g2 where n2: "new_square k2 g1 = (r2, g2)" by (cases "new_square k2 g1")
  from assms have "g = g2" and r1: "r1 = Inr ()"
    by (auto simp: Grid_init_def init_squares_eq n1 n2 split: sum.splits)
  moreover have "squares g2 = squares g1" using new_square_squares[of k2 g1] n2 by simp
  moreover have "squares g1 = squares ?g0" using new_square_squares[of k1 ?g0] n1 by simp
  ultimately show "squares g = all_squares (nat w) (nat h)" by simp
  from r1 n1 have "get_empty_squares ?g0 \<noteq> []"
    by (auto simp: new_square_def Let_def split: if_splits)
  then have "concat (all_squares (nat w) (nat h)) \<noteq> []" by (simp add: get_empty_squares_def)
  then have "length (concat (all_squares (nat w) (nat h))) \<noteq> 0" by simp
  then have nz: "nat w * nat h \<noteq> 0" unfolding length_all_squares .
  from nz show "0 < nat w" by (cases "nat w") simp_all
  from nz show "0 < nat h" by (cases "nat h") simp_all
qed

lemma Grid_init_wf: "Grid_init w h k1 k2 = Inr g \<Longrightarrow> wf_grid g"
  by (simp add: wf_grid_def Grid_init_squares(1) distinct_all_squares)

subsection \<open>Values written by a move\<close>

lemma pow2_tile_iff: "pow2_tile v \<longleftrightarrow> (\<exists>n\<ge>1. v = 2 ^ n)"
proof
  assume "pow2_tile v"
  then show "\<exists>n\<ge>1. v = 2 ^ n" by (auto simp: pow2_tile_def)
next
  assume "\<exists>n\<ge>1. v = 2 ^ n"
  then obtain n where n: "1 \<le> n" "v = 2 ^ n" by blast
  have "n < 2 ^ n" by (rule less_exp)
  moreover have "nat v = 2 ^ n" using n(2) by (simp add: nat_power_eq)
  ultimately have "n \<le> nat v" by linarith
  with n(1) have "n \<in> {1..nat v}" by simp
  with n(2) show "pow2_tile v" unfolding pow2_tile_def by blast
qed

lemma pow2_tile_double: "pow2_tile v \<Longrightarrow> pow2_tile (v + v)"
proof -
  assume "pow2_tile v"
  then obtain n where "1 \<le> n" "v = 2 ^ n" unfolding pow2_tile_iff by blast
  then have "1 \<le> Suc n" "v + v = 2 ^ Suc n" by simp_all
  then show ?thesis unfolding pow2_tile_iff by blast
qed

lemma pow2_tile_2: "pow2_tile 2"
  unfolding pow2_tile_iff by (rule exI[of _ 1]) simp

lemma shift_body_closed_on:
  assumes "i < length line" "vars_ok line i v"
    and "shift_body line (i, line ! i) (v, s) = (v', s')"
    and "set line \<subseteq> A" "\<forall>a\<in>A. \<forall>x. s a = Some x \<longrightarrow> Q x" "\<And>x. Q x \<Longrightarrow> Q (x + x)"
  shows "\<forall>a\<in>A. \<forall>x. s' a = Some x \<longrightarrow> Q x"
  using assms(2,3)
proof (cases rule: shift_body_cases)
  case same
  with assms(5) show ?thesis by simp
next
  case (merge j x)
  from merge(1) assms(1) have "line ! j \<in> set line" by (intro nth_mem) simp
  with assms(4) have "line ! j \<in> A" by blast
  with assms(5,6) merge(2) have "Q (x + x)" by blast
  with assms(5) merge(8) show ?thesis by simp
next
  case (slide f x)
  from assms(1) have "line ! i \<in> set line" by (intro nth_mem)
  with assms(4) have "line ! i \<in> A" by blast
  with assms(5) slide(2) have "Q x" by blast
  with assms(5) slide(7) show ?thesis by simp
qed

lemma shift_loop_closed_on:
  assumes "set line \<subseteq> A" "\<forall>a\<in>A. \<forall>x. s a = Some x \<longrightarrow> Q x" "\<And>x. Q x \<Longrightarrow> Q (x + x)"
  shows "\<forall>a\<in>A. \<forall>x. snd (shift_loop line s) a = Some x \<longrightarrow> Q x"
proof -
  let ?P = "\<lambda>i st. vars_ok line i (fst st) \<and> (\<forall>a\<in>A. \<forall>x. snd st a = Some x \<longrightarrow> Q x)"
  have "?P (length line) (shift_loop line s)"
    unfolding shift_loop_def
  proof (rule fold_enumerate_inv[where P = ?P])
    show "?P 0 (shift_init, s)" using assms(2) by (simp add: vars_ok_init)
  next
    fix i and st :: "shift_vars \<times> store" assume i: "i < length line" and P: "?P i st"
    obtain v s1 where st: "st = (v, s1)" by (cases st)
    obtain v' s2 where step: "shift_body line (i, line ! i) (v, s1) = (v', s2)" by fastforce
    from P st have ok: "vars_ok line i v" and q: "\<forall>a\<in>A. \<forall>x. s1 a = Some x \<longrightarrow> Q x" by simp_all
    have "vars_ok line (Suc i) v'" using vars_ok_step[OF ok, of s1] step by simp
    moreover have "\<forall>a\<in>A. \<forall>x. s2 a = Some x \<longrightarrow> Q x"
      using shift_body_closed_on[OF i ok step assms(1) q assms(3)] by simp
    ultimately show "?P (Suc i) (shift_body line (i, line ! i) st)" by (simp add: st step)
  qed
  then show ?thesis by simp
qed

lemma move_loop_closed_on:
  assumes "set (concat ls) \<subseteq> A" "\<forall>a\<in>A. \<forall>x. s a = Some x \<longrightarrow> Q x" "\<And>x. Q x \<Longrightarrow> Q (x + x)"
  shows "\<forall>a\<in>A. \<forall>x. snd (snd (move_loop ls s)) a = Some x \<longrightarrow> Q x"
  using assms(1)
proof (induction ls rule: rev_induct)
  case Nil
  then show ?case using assms(2) by (simp add: move_loop_Nil)
next
  case (snoc l ls)
  obtain fin made s1 where m: "move_loop ls s = (fin, made, s1)" by (cases "move_loop ls s") auto
  from snoc have q: "\<forall>a\<in>A. \<forall>x. s1 a = Some x \<longrightarrow> Q x" and l: "set l \<subseteq> A" by (simp_all add: m)
  from shift_loop_closed_on[OF l q assms(3)] show ?case
    by (simp add: move_loop_snoc m shift_store)
qed

lemma Grid_init_values:
  assumes "Grid_init w h k1 k2 = Inr g"
  shows "val g c = None \<or> val g c = Some 2"
proof -
  let ?g0 = "\<lparr>width = w, height = h, squares = all_squares (nat w) (nat h), val = (\<lambda>_. None)\<rparr>"
  obtain r1 g1 where n1: "new_square k1 ?g0 = (r1, g1)" by (cases "new_square k1 ?g0")
  obtain r2 g2 where n2: "new_square k2 g1 = (r2, g2)" by (cases "new_square k2 g1")
  from assms have "g = g2"
    by (auto simp: Grid_init_def init_squares_eq n1 n2 split: sum.splits)
  with new_square_value[of k1 ?g0 c] new_square_value[of k2 g1 c] n1 n2 show ?thesis by auto
qed

lemma move_tiles_ok:
  assumes "tiles_ok g" "set (concat ls) \<subseteq> set (concat (squares g))"
  shows "tiles_ok (snd (move ls k g))"
proof -
  obtain fin made s where m: "move_loop ls (val g) = (fin, made, s)"
    by (cases "move_loop ls (val g)") auto
  from assms(1) have "\<forall>a\<in>set (concat (squares g)). \<forall>x. val g a = Some x \<longrightarrow> pow2_tile x"
    by (simp add: tiles_ok_def)
  from move_loop_closed_on[OF assms(2) this pow2_tile_double] m
  have s: "\<forall>a\<in>set (concat (squares g)). \<forall>x. s a = Some x \<longrightarrow> pow2_tile x" by simp
  then have ok1: "tiles_ok (g\<lparr>val := s\<rparr>)" by (simp add: tiles_ok_def)
  have ok2: "tiles_ok (snd (new_square k (g\<lparr>val := s\<rparr>)))"
    unfolding tiles_ok_def new_square_squares
  proof (intro ballI allI impI)
    fix a v assume a: "a \<in> set (concat (squares (g\<lparr>val := s\<rparr>)))"
      and v: "val (snd (new_square k (g\<lparr>val := s\<rparr>))) a = Some v"
    from new_square_value[of k "g\<lparr>val := s\<rparr>" a] v have "s a = Some v \<or> v = 2" by auto
    with s a show "pow2_tile v" using pow2_tile_2 by auto
  qed
  from ok1 ok2 show ?thesis by (simp add: move_def m Let_def)
qed

subsection \<open>Counting tiles in lines of at most four squares\<close>

lemma count_filled_upd_notin: "a \<notin> set xs \<Longrightarrow> count_filled (s(a := w)) xs = count_filled s xs"
  by (induction xs) (auto simp: count_filled_def)

lemma count_filled_upd:
  "distinct xs \<Longrightarrow> a \<in> set xs \<Longrightarrow>
   count_filled (s(a := w)) xs + (if s a \<noteq> None then 1 else 0) =
   count_filled s xs + (if w \<noteq> None then 1 else 0)"
proof (induction xs)
  case Nil
  then show ?case by simp
next
  case (Cons y ys)
  show ?case
  proof (cases "y = a")
    case True
    with Cons.prems have "a \<notin> set ys" by simp
    from count_filled_upd_notin[OF this, of s w] True show ?thesis
      by (simp add: count_filled_def)
  next
    case False
    with Cons show ?thesis by (simp add: count_filled_def)
  qed
qed

lemma shift_body_cases5:
  assumes "vars_ok line i v" "shift_body line (i, line ! i) (v, s) = (v', s')"
  obtains (empty) "s (line ! i) = None" "s' = s"
      "v' = (if first_empty_spot v = None then v\<lparr>first_empty_spot := Some i\<rparr> else v)"
  | (stay) "s (line ! i) \<noteq> None" "merged v" "s' = s" "v' = v" "first_empty_spot v \<noteq> None \<or> True"
  | (merge) j x where "j < i" "s (line ! j) = Some x" "s (line ! i) = Some x" "\<not> merged v"
      "merged v'" "first_empty_spot v' = (if first_empty_spot v = None then Some i else first_empty_spot v)"
      "s' = s(line ! j := Some (x + x), line ! i := None)"
  | (slide) f x where "f < i" "s (line ! i) = Some x" "first_empty_spot v = Some f"
      "first_empty_spot v' = Some (Suc f)" "merged v' = merged v"
      "s' = s(line ! f := Some x, line ! i := None)"
  | (keep) "s (line ! i) \<noteq> None" "first_empty_spot v = None" "first_empty_spot v' = None"
      "merged v' = merged v" "s' = s"
proof (cases "s (line ! i)")
  case None
  then have sn: "s (line ! i) = None" .
  from assms(2) sn show ?thesis
    by (intro empty) (auto simp: shift_body_None[of s "line ! i", OF sn] split: if_splits)
next
  case (Some x)
  then have sx: "s (line ! i) = Some x" .
  show ?thesis
  proof (cases "no_merge v s x")
    case True
    show ?thesis
    proof (cases "first_empty_spot v")
      case None
      then have fn: "first_empty_spot v = None" .
      from assms(2) sx fn show ?thesis
        by (intro keep) (auto simp: shift_body_keep[of s "line ! i", OF sx True fn])
    next
      case (Some f)
      then have ff: "first_empty_spot v = Some f" .
      from assms(1) ff have "f < i" by (simp add: vars_ok_def)
      with assms(2) sx ff show ?thesis
        by (intro slide[of f x])
          (auto simp: shift_body_slide[of s "line ! i", OF sx True ff])
    qed
  next
    case False
    then obtain l where l: "last_filled_spot v = Some l" "s l = Some x"
      by (auto simp: no_merge_def split: option.splits)
    from assms(1) l(1) obtain j where j: "j < i" "l = line ! j"
      by (auto simp: vars_ok_def)
    show ?thesis
    proof (cases "merged v")
      case True
      from assms(2) sx True show ?thesis
        by (intro stay) (auto simp: shift_body_stay[of s "line ! i", OF sx l True])
    next
      case False
      from assms(2) sx j l False show ?thesis
        by (intro merge[of j x])
          (auto simp: shift_body_merge[of s "line ! i", OF sx l False])
    qed
  qed
qed

lemma count_filled_move:
  assumes "distinct line" "f < length line" "i < length line" "f \<noteq> i"
    and "s (line ! f) = None" "s (line ! i) = Some x"
  shows "count_filled (s(line ! f := Some x, line ! i := None)) line = count_filled s line"
proof -
  from assms(1-4) have ne: "line ! f \<noteq> line ! i" by (simp add: nth_eq_iff_index_eq)
  from count_filled_upd[OF assms(1) nth_mem[OF assms(2)], of s "Some x"] assms(5)
  have a: "count_filled (s(line ! f := Some x)) line = Suc (count_filled s line)" by simp
  from count_filled_upd[OF assms(1) nth_mem[OF assms(3)], of "s(line ! f := Some x)" None]
    assms(6) ne
  have "Suc (count_filled (s(line ! f := Some x, line ! i := None)) line) =
      count_filled (s(line ! f := Some x)) line" by simp
  with a show ?thesis by simp
qed

lemma count_filled_merge:
  assumes "distinct line" "j < length line" "i < length line" "j \<noteq> i"
    and "s (line ! j) = Some x" "s (line ! i) = Some y"
  shows "Suc (count_filled (s(line ! j := Some z, line ! i := None)) line) = count_filled s line"
proof -
  from assms(1-4) have ne: "line ! j \<noteq> line ! i" by (simp add: nth_eq_iff_index_eq)
  from count_filled_upd[OF assms(1) nth_mem[OF assms(2)], of s "Some z"] assms(5)
  have a: "count_filled (s(line ! j := Some z)) line = count_filled s line" by simp
  from count_filled_upd[OF assms(1) nth_mem[OF assms(3)], of "s(line ! j := Some z)" None]
    assms(6) ne
  have "Suc (count_filled (s(line ! j := Some z, line ! i := None)) line) =
      count_filled (s(line ! j := Some z)) line" by simp
  with a show ?thesis by simp
qed

lemma short_step:
  assumes d: "distinct line" and i: "i < length line" and len: "length line \<le> 4"
    and ok: "vars_ok line i v" and mi: "merged v \<longrightarrow> 2 \<le> i"
    and gap: "gap_ok line i v s"
    and cnt: "count_filled s line + (if merged v then 1 else 0) = n"
    and step: "shift_body line (i, line ! i) (v, s) = (v', s')"
  shows "(merged v' \<longrightarrow> 2 \<le> Suc i) \<and>
         (Suc i \<le> 3 \<longrightarrow> gap_ok line (Suc i) v' s') \<and>
         count_filled s' line + (if merged v' then 1 else 0) = n"
  using ok step
proof (cases rule: shift_body_cases5)
  case empty
    from empty mi have c1: "merged v' \<longrightarrow> 2 \<le> Suc i" by (auto split: if_splits)
    from empty gap have c2: "Suc i \<le> 3 \<longrightarrow> gap_ok line (Suc i) v' s'"
      by (auto simp: gap_ok_def less_Suc_eq split: if_splits)
    from empty cnt have c3: "count_filled s' line + (if merged v' then 1 else 0) = n" by (auto split: if_splits)
  from c1 c2 c3 show ?thesis by (intro conjI)
next
  case stay
    from stay mi have c1: "merged v' \<longrightarrow> 2 \<le> Suc i" by auto
    
    have c2: "Suc i \<le> 3 \<longrightarrow> gap_ok line (Suc i) v' s'"
    proof (intro impI, unfold gap_ok_def, intro allI impI)
      fix f k assume f: "first_empty_spot v' = Some f" and k: "f \<le> k \<and> k < Suc i"
      from f stay(4) have fv: "first_empty_spot v = Some f" by simp
      with ok have fi: "f < i" by (simp add: vars_ok_def)
      show "s' (line ! k) = None \<or> f < k \<and> 2 \<le> k"
      proof (cases "k = i")
        case True
        with fi mi stay(2) show ?thesis by simp
      next
        case False
        with k have "k < i" by simp
        with gap fv k stay(3) show ?thesis by (simp add: gap_ok_def)
      qed
    qed
    from stay cnt have c3: "count_filled s' line + (if merged v' then 1 else 0) = n" by auto
  from c1 c2 c3 show ?thesis by (intro conjI)
next
  case (merge j x)
    from merge have c1: "merged v' \<longrightarrow> 2 \<le> Suc i" by auto
    
    from merge(1) i d have ne: "line ! j \<noteq> line ! i" by (simp add: nth_eq_iff_index_eq)
    have c2: "Suc i \<le> 3 \<longrightarrow> gap_ok line (Suc i) v' s'"
    proof (intro impI, unfold gap_ok_def, intro allI impI)
      fix f k assume f: "first_empty_spot v' = Some f" and k: "f \<le> k \<and> k < Suc i"
      show "s' (line ! k) = None \<or> f < k \<and> 2 \<le> k"
      proof (cases "k = i")
        case True
        with merge(7) show ?thesis by simp
      next
        case False
        with k have ki: "k < i" by simp
        with f merge(6) k have fv: "first_empty_spot v = Some f" by (auto split: if_splits)
        from ki i d have "line ! k \<noteq> line ! i" by (simp add: nth_eq_iff_index_eq)
        with merge(7) have sk: "s' (line ! k) = (if line ! k = line ! j then Some (x + x) else s (line ! k))"
          by simp
        from k ki have "f \<le> k \<and> k < i" by simp
        with gap fv have g: "s (line ! k) = None \<or> f < k \<and> 2 \<le> k"
          unfolding gap_ok_def by blast
        show ?thesis
        proof (cases "line ! k = line ! j")
          case True
          with merge(2) g show ?thesis by auto
        next
          case False
          with sk g show ?thesis by auto
        qed
      qed
    qed
    
    from merge(1) i have "j < length line" "j \<noteq> i" by simp_all
    from count_filled_merge[OF d this(1) i this(2) merge(2) merge(3), of "x + x"] merge cnt
    have c3: "count_filled s' line + (if merged v' then 1 else 0) = n" by simp
  from c1 c2 c3 show ?thesis by (intro conjI)
next
  case (slide f x)
  from gap slide(1,3) have fe: "s (line ! f) = None" by (auto simp: gap_ok_def)
    from slide mi have c1: "merged v' \<longrightarrow> 2 \<le> Suc i" by auto
    
    have c2: "Suc i \<le> 3 \<longrightarrow> gap_ok line (Suc i) v' s'"
    proof (intro impI, unfold gap_ok_def, intro allI impI)
      fix f' k assume i3: "Suc i \<le> 3" and f': "first_empty_spot v' = Some f'"
        and k: "f' \<le> k \<and> k < Suc i"
      from f' slide(4) have ff: "f' = Suc f" by simp
      show "s' (line ! k) = None \<or> f' < k \<and> 2 \<le> k"
      proof (cases "k = i")
        case True
        with slide(6) show ?thesis by simp
      next
        case False
        with k have ki: "k < i" by simp
        from ki i d have n1: "line ! k \<noteq> line ! i" by (simp add: nth_eq_iff_index_eq)
        from k ff ki i d have n2: "line ! k \<noteq> line ! f" by (simp add: nth_eq_iff_index_eq)
        from slide(6) n1 n2 have sk: "s' (line ! k) = s (line ! k)" by simp
        from k ff ki have "f \<le> k \<and> k < i" by simp
        with gap slide(3) have "s (line ! k) = None \<or> f < k \<and> 2 \<le> k"
          unfolding gap_ok_def by blast
        with ki i3 sk show ?thesis by auto
      qed
    qed
    
    from slide(1) i have "f < length line" "f \<noteq> i" by simp_all
    from count_filled_move[OF d this(1) i this(2) fe slide(2)] slide cnt
    have c3: "count_filled s' line + (if merged v' then 1 else 0) = n" by simp
  from c1 c2 c3 show ?thesis by (intro conjI)
next
  case keep
    from keep mi have c1: "merged v' \<longrightarrow> 2 \<le> Suc i" by auto
    from keep have c2: "Suc i \<le> 3 \<longrightarrow> gap_ok line (Suc i) v' s'" by (simp add: gap_ok_def)
    from keep cnt have c3: "count_filled s' line + (if merged v' then 1 else 0) = n" by auto
  from c1 c2 c3 show ?thesis by (intro conjI)
qed

lemma shift_loop_count_short:
  assumes d: "distinct line" and len: "length line \<le> 4"
  shows "count_filled (snd (shift_loop line s)) line +
           (if merged (fst (shift_loop line s)) then 1 else 0) = count_filled s line"
proof -
  let ?n = "count_filled s line"
  let ?P = "\<lambda>i st. vars_ok line i (fst st) \<and> (merged (fst st) \<longrightarrow> 2 \<le> i) \<and>
      (i \<le> 3 \<longrightarrow> gap_ok line i (fst st) (snd st)) \<and>
      count_filled (snd st) line + (if merged (fst st) then 1 else 0) = ?n"
  have "?P (length line) (shift_loop line s)"
    unfolding shift_loop_def
  proof (rule fold_enumerate_inv[where P = ?P])
    show "?P 0 (shift_init, s)"
      by (simp add: vars_ok_init) (simp add: shift_init_def gap_ok_def)
  next
    fix i and st :: "shift_vars \<times> store" assume i: "i < length line" and P: "?P i st"
    obtain v s1 where st: "st = (v, s1)" by (cases st)
    obtain v' s2 where step: "shift_body line (i, line ! i) (v, s1) = (v', s2)" by fastforce
    from P st have ok: "vars_ok line i v" and mi: "merged v \<longrightarrow> 2 \<le> i"
      and g: "i \<le> 3 \<longrightarrow> gap_ok line i v s1"
      and c: "count_filled s1 line + (if merged v then 1 else 0) = ?n" by simp_all
    from i len g have gap: "gap_ok line i v s1" by simp
    have "vars_ok line (Suc i) v'" using vars_ok_step[OF ok, of s1] step by simp
    with short_step[OF d i len ok mi gap c step]
    show "?P (Suc i) (shift_body line (i, line ! i) st)" by (simp add: st step)
  qed
  then show ?thesis by simp
qed

lemma count_filled_cong:
  "(\<forall>a\<in>set xs. s a = t a) \<Longrightarrow> count_filled s xs = count_filled t xs"
  unfolding count_filled_def by (induction xs) simp_all

lemma count_filled_append: "count_filled s (xs @ ys) = count_filled s xs + count_filled s ys"
  by (simp add: count_filled_def)

lemma count_filled_mset: "mset xs = mset ys \<Longrightarrow> count_filled s xs = count_filled s ys"
proof -
  assume "mset xs = mset ys"
  then have "mset (filter (\<lambda>a. s a \<noteq> None) xs) = mset (filter (\<lambda>a. s a \<noteq> None) ys)"
    by (simp only: mset_filter)
  then show ?thesis unfolding count_filled_def by (rule mset_eq_length)
qed

lemma move_loop_Cons:
  "move_loop (l # ls) s =
     (case move_loop ls (snd (shift l s)) of (f2, m2, s2) \<Rightarrow>
        (f2 \<or> snd (fst (shift l s)), m2 \<or> fst (fst (shift l s)), s2))"
  using move_loop_append[of "[l]" ls s] by (simp add: move_loop_single)

lemma move_loop_count:
  assumes "distinct (concat ls)" "\<forall>l\<in>set ls. length l \<le> 4"
  shows "count_filled (snd (snd (move_loop ls s))) (concat ls) + merge_count ls s =
         count_filled s (concat ls)"
  using assms
proof (induction ls arbitrary: s)
  case Nil
  show ?case by (simp add: move_loop_Nil count_filled_def)
next
  case (Cons l ls)
  let ?s1 = "snd (shift l s)"
  let ?s' = "snd (snd (move_loop ls ?s1))"
  from Cons.prems have dl: "distinct l" and dls: "distinct (concat ls)"
    and disj: "set l \<inter> set (concat ls) = {}" and ll: "length l \<le> 4"
    and lls: "\<forall>l\<in>set ls. length l \<le> 4" by auto
  have final: "snd (snd (move_loop (l # ls) s)) = ?s'"
    by (simp add: move_loop_Cons split: prod.splits)
  have "\<forall>a\<in>set l. ?s' a = ?s1 a"
    using move_loop_frame[of _ ls ?s1] disj by fastforce
  then have a: "count_filled ?s' l = count_filled ?s1 l" by (rule count_filled_cong)
  have b: "count_filled ?s1 l + (if merged (fst (shift_loop l s)) then 1 else 0) = count_filled s l"
    using shift_loop_count_short[OF dl ll, of s] by (simp add: shift_store)
  have "\<forall>a\<in>set (concat ls). ?s1 a = s a"
    using shift_frame[of _ l s] disj by fastforce
  then have c: "count_filled ?s1 (concat ls) = count_filled s (concat ls)"
    by (rule count_filled_cong)
  from Cons.IH[OF dls lls, of ?s1] have e:
    "count_filled ?s' (concat ls) + merge_count ls ?s1 = count_filled ?s1 (concat ls)" .
  from a b c e show ?case
    unfolding final by (simp add: count_filled_append)
qed

lemma new_square_count:
  assumes "wf_grid g" "k < length (get_empty_squares g)"
  shows "fst (new_square k g) = Inr ()" and "tile_count (snd (new_square k g)) = Suc (tile_count g)"
proof -
  let ?e = "get_empty_squares g ! k"
  from assms(2) have ne: "get_empty_squares g \<noteq> []" by auto
  then show "fst (new_square k g) = Inr ()" by (rule new_square_ok)
  from assms(2) have "?e \<in> set (get_empty_squares g)" by (rule nth_mem)
  then have mem: "?e \<in> set (concat (squares g))" and emp: "val g ?e = None"
    by (simp_all add: get_empty_squares_def)
  from assms(1) have d: "distinct (concat (squares g))" by (simp add: wf_grid_def)
  from count_filled_upd[OF d mem, of "val g" "Some 2"] emp
  have "count_filled ((val g)(?e := Some 2)) (concat (squares g)) =
      Suc (count_filled (val g) (concat (squares g)))" by simp
  with ne show "tile_count (snd (new_square k g)) = Suc (tile_count g)"
    by (simp add: new_square_def Let_def tile_count_def)
qed

subsection \<open>The column decomposition of a grid of equal rows\<close>

lemma get_columns_overflow:
  assumes "squares g \<noteq> []" "\<forall>r\<in>set (squares g). length r = h" "length (squares g) < h"
  shows "get_columns g = Inl IndexError"
proof -
  let ?F = "\<lambda>row r. fold append_column (enumerate 0 row) r"
  let ?init = "map (\<lambda>_. []) (squares g) :: square list list"
  from assms(1) obtain r rs where rows: "squares g = r # rs" by (cases "squares g") auto
  with assms(2) have lr: "length r = h" by simp
  have "?F r (Inr ?init) = Inl IndexError"
    by (rule fold_append_column_overflow) (use assms(3) lr in simp_all)
  moreover have "fold ?F (r # rs) (Inr ?init) = fold ?F rs (?F r (Inr ?init))" by simp
  ultimately have "fold ?F (r # rs) (Inr ?init) = Inl IndexError"
    by (simp only: fold_rows_Inl)
  then show ?thesis unfolding get_columns_def by (simp only: rows[symmetric])
qed

lemma get_columns_fit:
  assumes "\<forall>r\<in>set (squares g). length r = h" "h \<le> length (squares g)"
  shows "\<exists>cols. get_columns g = Inr cols"
proof -
  have "\<forall>r\<in>set (squares g). length r \<le> length (map (\<lambda>_. []) (squares g) :: square list list)"
    using assms by simp
  from fold_rows_fit[OF this] show ?thesis
    unfolding get_columns_def by blast
qed

lemma move_no_IndexError: "fst (move ls k g) \<noteq> Inl IndexError"
  by (cases "move_loop ls (val g)") (simp add: move_def new_square_def Let_def)

subsection \<open>A move that reports a change has changed a square\<close>

lemma shift_body_changed:
  assumes i: "i < length line" and ok: "vars_ok line i v" and d: "distinct line"
    and step: "shift_body line (i, line ! i) (v, s1) = (v', s2)"
    and fr: "\<forall>j. i \<le> j \<and> j < length line \<longrightarrow> s1 (line ! j) = s (line ! j)"
    and ch: "made_move v \<longrightarrow> (\<exists>j<i. s1 (line ! j) = None \<and> s (line ! j) \<noteq> None)"
  shows "(\<forall>j. Suc i \<le> j \<and> j < length line \<longrightarrow> s2 (line ! j) = s (line ! j)) \<and>
         (made_move v' \<longrightarrow> (\<exists>j<Suc i. s2 (line ! j) = None \<and> s (line ! j) \<noteq> None))"
  using ok step
proof (cases rule: shift_body_cases)
  case same
  with fr ch show ?thesis using less_Suc_eq by auto
next
  case (merge j x)
  from fr i merge(3) have si: "s (line ! i) = Some x" by simp
  have ne: "\<And>m. Suc i \<le> m \<Longrightarrow> m < length line \<Longrightarrow> line ! m \<noteq> line ! j \<and> line ! m \<noteq> line ! i"
    using d merge(1) i by (simp add: nth_eq_iff_index_eq)
  have a: "\<forall>m. Suc i \<le> m \<and> m < length line \<longrightarrow> s2 (line ! m) = s (line ! m)"
    using ne fr by (simp add: merge(8))
  have b: "s2 (line ! i) = None" by (simp add: merge(8))
  from a b si show ?thesis by auto
next
  case (slide f x)
  from fr i slide(2) have si: "s (line ! i) = Some x" by simp
  have ne: "\<And>m. Suc i \<le> m \<Longrightarrow> m < length line \<Longrightarrow> line ! m \<noteq> line ! f \<and> line ! m \<noteq> line ! i"
    using d slide(1) i by (simp add: nth_eq_iff_index_eq)
  have a: "\<forall>m. Suc i \<le> m \<and> m < length line \<longrightarrow> s2 (line ! m) = s (line ! m)"
    using ne fr by (simp add: slide(7))
  have b: "s2 (line ! i) = None" by (simp add: slide(7))
  from a b si show ?thesis by auto
qed

lemma shift_loop_changed:
  assumes "distinct line" "made_move (fst (shift_loop line s))"
  shows "\<exists>j<length line. snd (shift_loop line s) (line ! j) = None \<and> s (line ! j) \<noteq> None"
proof -
  let ?P = "\<lambda>i st. vars_ok line i (fst st) \<and>
      (\<forall>j. i \<le> j \<and> j < length line \<longrightarrow> snd st (line ! j) = s (line ! j)) \<and>
      (made_move (fst st) \<longrightarrow> (\<exists>j<i. snd st (line ! j) = None \<and> s (line ! j) \<noteq> None))"
  have "?P (length line) (shift_loop line s)"
    unfolding shift_loop_def
  proof (rule fold_enumerate_inv[where P = ?P])
    show "?P 0 (shift_init, s)" by (simp add: vars_ok_def shift_init_def)
  next
    fix i and st :: "shift_vars \<times> store" assume i: "i < length line" and P: "?P i st"
    obtain v s1 where st: "st = (v, s1)" by (cases st)
    obtain v' s2 where step: "shift_body line (i, line ! i) (v, s1) = (v', s2)" by fastforce
    from P st have ok: "vars_ok line i v"
      and fr: "\<forall>j. i \<le> j \<and> j < length line \<longrightarrow> s1 (line ! j) = s (line ! j)"
      and ch: "made_move v \<longrightarrow> (\<exists>j<i. s1 (line ! j) = None \<and> s (line ! j) \<noteq> None)" by simp_all
    have "vars_ok line (Suc i) v'" using vars_ok_step[OF ok, of s1] step by simp
    with shift_body_changed[OF i ok assms(1) step fr ch]
    show "?P (Suc i) (shift_body line (i, line ! i) st)" by (simp add: st step)
  qed
  with assms(2) show ?thesis by simp
qed

lemma shift_changed:
  assumes "distinct line" "fst (fst (shift line s))"
  shows "\<exists>a\<in>set line. snd (shift line s) a = None \<and> s a \<noteq> None"
proof -
  from assms(2) have "made_move (fst (shift_loop line s))" by (simp add: shift_made_move)
  from shift_loop_changed[OF assms(1) this] obtain j where
    "j < length line" "snd (shift_loop line s) (line ! j) = None" "s (line ! j) \<noteq> None" by blast
  then show ?thesis unfolding shift_store using nth_mem by blast
qed

lemma move_loop_changed:
  assumes "distinct (concat ls)" "fst (snd (move_loop ls s))"
  shows "\<exists>a\<in>set (concat ls). snd (snd (move_loop ls s)) a = None \<and> s a \<noteq> None"
  using assms
proof (induction ls rule: rev_induct)
  case Nil
  then show ?case by (simp add: move_loop_Nil)
next
  case (snoc l ls)
  obtain fin made s1 where m: "move_loop ls s = (fin, made, s1)" by (cases "move_loop ls s") auto
  from snoc.prems(1) have dl: "distinct l" and dls: "distinct (concat ls)"
    and dj: "set l \<inter> set (concat ls) = {}" by auto
  show ?case
  proof (cases "fst (fst (shift l s1))")
    case True
    from shift_changed[OF dl True] obtain a where
      a: "a \<in> set l" "snd (shift l s1) a = None" "s1 a \<noteq> None" by blast
    from a(1) dj have "a \<notin> set (concat ls)" by auto
    from move_loop_frame[OF this, of s] m have "s1 a = s a" by simp
    with a show ?thesis by (auto simp: move_loop_snoc m)
  next
    case False
    with snoc.prems(2) have made by (simp add: move_loop_snoc m)
    with snoc.IH[OF dls] m obtain a where "a \<in> set (concat ls)" "s1 a = None" "s a \<noteq> None" by auto
    with shift_unchanged[OF False] show ?thesis by (auto simp: move_loop_snoc m)
  qed
qed

lemma shift_loop_blocked:
  assumes "blocked_line s line"
  shows "\<not> made_move (fst (shift_loop line s))"
proof -
  from assms obtain n where n: "n \<le> length line"
    and full: "\<forall>j<n. s (line ! j) \<noteq> None"
    and rest: "\<forall>j. n \<le> j \<and> j < length line \<longrightarrow> s (line ! j) = None"
    and diff: "\<forall>j. Suc j < n \<longrightarrow> s (line ! j) \<noteq> s (line ! Suc j)"
    unfolding blocked_line_def by (auto simp: less_diff_conv)
  let ?P = "\<lambda>i st. snd st = s \<and> \<not> made_move (fst st) \<and>
      (i \<le> n \<longrightarrow> first_empty_spot (fst st) = None \<and>
         last_filled_spot (fst st) = (if i = 0 then None else Some (line ! (i - 1))))"
  have "?P (length line) (shift_loop line s)"
    unfolding shift_loop_def
  proof (rule fold_enumerate_inv[where P = ?P])
    show "?P 0 (shift_init, s)" by (simp add: shift_init_def)
  next
    fix i and st :: "shift_vars \<times> store" assume i: "i < length line" and P: "?P i st"
    obtain v s1 where st: "st = (v, s1)" by (cases st)
    from P st have s1: "s1 = s" and nm: "\<not> made_move v"
      and pre: "i \<le> n \<longrightarrow> first_empty_spot v = None \<and>
         last_filled_spot v = (if i = 0 then None else Some (line ! (i - 1)))" by simp_all
    show "?P (Suc i) (shift_body line (i, line ! i) st)"
    proof (cases "i < n")
      case True
      with full obtain x where x: "s (line ! i) = Some x" by auto
      from True pre have fe: "first_empty_spot v = None"
        and lf: "last_filled_spot v = (if i = 0 then None else Some (line ! (i - 1)))" by simp_all
      have nomerge: "no_merge v s x"
      proof (cases i)
        case 0
        with lf show ?thesis by (simp add: no_merge_def)
      next
        case (Suc k)
        with True diff x have "s (line ! k) \<noteq> Some x" by auto
        with lf Suc show ?thesis by (simp add: no_merge_def)
      qed
      from shift_body_keep[where s = s and spot = "line ! i" and line = line and i = i, OF x nomerge fe] nm fe
      show ?thesis by (simp add: st s1)
    next
      case False
      with rest i have x: "s (line ! i) = None" by simp
      from shift_body_None[where s = s and spot = "line ! i" and line = line and i = i and v = v, OF x] nm False
      show ?thesis by (simp add: st s1)
    qed
  qed
  then show ?thesis by simp
qed

lemma move_loop_blocked:
  assumes "\<forall>l\<in>set ls. blocked_line s l"
  shows "\<not> fst (snd (move_loop ls s))"
  using assms
proof (induction ls rule: rev_induct)
  case Nil
  then show ?case by (simp add: move_loop_Nil)
next
  case (snoc l ls)
  obtain fin made s1 where m: "move_loop ls s = (fin, made, s1)" by (cases "move_loop ls s") auto
  from snoc m have nm: "\<not> made" by simp
  with move_loop_unchanged[of ls s] m have "s1 = s" by simp
  moreover from snoc.prems have "blocked_line s l" by simp
  ultimately have "\<not> fst (fst (shift l s1))"
    using shift_loop_blocked by (simp add: shift_made_move)
  with nm show ?case by (simp add: move_loop_snoc m)
qed

lemma move_unmade:
  assumes "\<not> fst (snd (move_loop ls (val g)))"
  shows "move ls k g = (Inr (), g)"
proof -
  obtain fin made s where m: "move_loop ls (val g) = (fin, made, s)"
    by (cases "move_loop ls (val g)") auto
  from assms m have "\<not> made" by simp
  moreover from move_loop_finished_made[of ls "val g"] m \<open>\<not> made\<close> have "\<not> fin" by auto
  moreover from move_loop_unchanged[of ls "val g"] assms m have "s = val g" by simp
  ultimately show ?thesis by (simp add: move_def m)
qed

subsection \<open>The merge of a line is the merge of its first equal pair\<close>

lemma first_pair_snoc:
  "first_pair xs = None \<Longrightarrow>
   first_pair (xs @ [x]) = (if xs \<noteq> [] \<and> last xs = x then Some (x + x) else None)"
  by (induction xs rule: first_pair.induct) (auto split: if_splits)

lemma first_pair_append:
  "first_pair xs = Some p \<Longrightarrow> first_pair (xs @ ys) = Some p"
  by (induction xs rule: first_pair.induct) (auto split: if_splits)

lemma tiles_snoc:
  "tiles s (xs @ [a]) = tiles s xs @ (case s a of None \<Rightarrow> [] | Some x \<Rightarrow> [x])"
  by (simp add: tiles_def)

lemma tiles_take_Suc:
  "i < length line \<Longrightarrow>
   tiles s (take (Suc i) line) = tiles s (take i line) @ (case s (line ! i) of None \<Rightarrow> [] | Some x \<Rightarrow> [x])"
  by (simp add: take_Suc_conv_app_nth tiles_snoc)

lemma tiles_cong: "\<forall>a\<in>set line. s1 a = s a \<Longrightarrow> tiles s1 line = tiles s line"
  by (induction line) (simp_all add: tiles_def)

lemma shift_body_ahead:
  assumes i: "i < length line" and ok: "vars_ok line i v" and d: "distinct line"
    and step: "shift_body line (i, line ! i) (v, s1) = (v', s2)"
    and fr: "\<forall>j. i \<le> j \<and> j < length line \<longrightarrow> s1 (line ! j) = s (line ! j)"
  shows "\<forall>j. Suc i \<le> j \<and> j < length line \<longrightarrow> s2 (line ! j) = s (line ! j)"
  using ok step
proof (cases rule: shift_body_cases)
  case same
  with fr show ?thesis by auto
next
  case (merge j x)
  have ne: "\<And>m. Suc i \<le> m \<Longrightarrow> m < length line \<Longrightarrow> line ! m \<noteq> line ! j \<and> line ! m \<noteq> line ! i"
    using d merge(1) i by (simp add: nth_eq_iff_index_eq)
  show ?thesis using ne fr by (simp add: merge(8))
next
  case (slide f x)
  have ne: "\<And>m. Suc i \<le> m \<Longrightarrow> m < length line \<Longrightarrow> line ! m \<noteq> line ! f \<and> line ! m \<noteq> line ! i"
    using d slide(1) i by (simp add: nth_eq_iff_index_eq)
  show ?thesis using ne fr by (simp add: slide(7))
qed

lemma shift_body_merged_kept:
  assumes "shift_body line (i, spot) (v, s) = (v', s')" "merged v"
  shows "merged v'" "finished v' = finished v"
  using assms
  by (auto simp: shift_body_def Let_def split: option.splits if_splits)

lemma shift_body_pair:
  assumes i: "i < length line" and ok: "vars_ok line i v" and d: "distinct line"
    and step: "shift_body line (i, line ! i) (v, s1) = (v', s2)"
    and cur: "s1 (line ! i) = s (line ! i)"
    and inv: "pair_inv s1 v (tiles s (take i line))"
  shows "pair_inv s2 v' (tiles s (take (Suc i) line))"
proof (cases "s1 (line ! i)")
  case None
  then have sn: "s1 (line ! i) = None" .
  from sn cur have t: "tiles s (take (Suc i) line) = tiles s (take i line)"
    by (simp add: tiles_take_Suc[OF i])
  from step shift_body_None[where s = s1 and spot = "line ! i" and line = line and i = i and v = v, OF sn]
  have "s2 = s1" and "merged v' = merged v" and "finished v' = finished v"
    and "last_filled_spot v' = last_filled_spot v" by (auto split: if_splits)
  with inv show ?thesis by (simp add: t pair_inv_def)
next
  case (Some x)
  then have sx: "s1 (line ! i) = Some x" .
  from sx cur have t: "tiles s (take (Suc i) line) = tiles s (take i line) @ [x]"
    by (simp add: tiles_take_Suc[OF i])
  let ?xs = "tiles s (take i line)"
  show ?thesis
  proof (cases "merged v")
    case True
    from shift_body_merged_kept[OF step True] have m: "merged v'" and f: "finished v' = finished v" .
    from inv True obtain p where p: "first_pair ?xs = Some p" and fp: "finished v \<longleftrightarrow> first_pair ?xs = Some GOAL"
      by (auto simp: pair_inv_def)
    from first_pair_append[OF p, of "[x]"] p fp m f show ?thesis
      by (simp add: t pair_inv_def)
  next
    case False
    from inv False have fn: "first_pair ?xs = None" and nf: "\<not> finished v"
      and lf: "case last_filled_spot v of None \<Rightarrow> ?xs = [] | Some l \<Rightarrow> ?xs \<noteq> [] \<and> s1 l = Some (last ?xs)"
      by (simp_all add: pair_inv_def)
    show ?thesis
    proof (cases "no_merge v s1 x")
      case True
      from True lf have nl: "\<not> (?xs \<noteq> [] \<and> last ?xs = x)"
        by (auto simp: no_merge_def split: option.splits)
      from first_pair_snoc[OF fn, of x] nl have fp': "first_pair (?xs @ [x]) = None" by simp
      show ?thesis
      proof (cases "first_empty_spot v")
        case None
        then have fe: "first_empty_spot v = None" .
        from step shift_body_keep[where s = s1 and spot = "line ! i" and line = line and i = i, OF sx True fe]
        have v': "v' = v\<lparr>last_filled_spot := Some (line ! i)\<rparr>" and s2: "s2 = s1" by simp_all
        from fp' False nf sx show ?thesis by (simp add: t pair_inv_def v' s2)
      next
        case (Some f)
        then have fe: "first_empty_spot v = Some f" .
        from ok fe have "f < i" by (simp add: vars_ok_def)
        with d i have ne: "line ! f \<noteq> line ! i" by (simp add: nth_eq_iff_index_eq)
        from step shift_body_slide[where s = s1 and spot = "line ! i" and line = line and i = i, OF sx True fe]
        have v': "v' = v\<lparr>last_filled_spot := Some (line ! f), first_empty_spot := Some (Suc f), made_move := True\<rparr>"
          and s2: "s2 = s1(line ! f := Some x, line ! i := None)" by simp_all
        from fp' False nf ne show ?thesis by (simp add: t pair_inv_def v' s2)
      qed
    next
      case nm: False
      then obtain l where l: "last_filled_spot v = Some l" "s1 l = Some x"
        by (auto simp: no_merge_def split: option.splits)
      from lf l have last: "?xs \<noteq> [] \<and> last ?xs = x" by simp
      from first_pair_snoc[OF fn, of x] last have fp': "first_pair (?xs @ [x]) = Some (x + x)" by simp
      from step shift_body_merge[where s = s1 and spot = "line ! i" and line = line and i = i, OF sx l False]
      have m: "merged v'" and f: "finished v' = (finished v \<or> x + x = GOAL)" by auto
      from fp' m f nf show ?thesis by (simp add: t pair_inv_def)
    qed
  qed
qed

lemma shift_loop_pair:
  assumes "distinct line"
  shows "pair_inv (snd (shift_loop line s)) (fst (shift_loop line s)) (tiles s line)"
proof -
  let ?P = "\<lambda>i st. vars_ok line i (fst st) \<and>
      (\<forall>j. i \<le> j \<and> j < length line \<longrightarrow> snd st (line ! j) = s (line ! j)) \<and>
      pair_inv (snd st) (fst st) (tiles s (take i line))"
  have "?P (length line) (shift_loop line s)"
    unfolding shift_loop_def
  proof (rule fold_enumerate_inv[where P = ?P])
    show "?P 0 (shift_init, s)"
      by (simp add: vars_ok_def shift_init_def pair_inv_def tiles_def)
  next
    fix i and st :: "shift_vars \<times> store" assume i: "i < length line" and P: "?P i st"
    obtain v s1 where st: "st = (v, s1)" by (cases st)
    obtain v' s2 where step: "shift_body line (i, line ! i) (v, s1) = (v', s2)" by fastforce
    from P st have ok: "vars_ok line i v"
      and fr: "\<forall>j. i \<le> j \<and> j < length line \<longrightarrow> s1 (line ! j) = s (line ! j)"
      and inv: "pair_inv s1 v (tiles s (take i line))" by simp_all
    from fr i have cur: "s1 (line ! i) = s (line ! i)" by simp
    have "vars_ok line (Suc i) v'" using vars_ok_step[OF ok, of s1] step by simp
    with shift_body_ahead[OF i ok assms step fr] shift_body_pair[OF i ok assms step cur inv]
    show "?P (Suc i) (shift_body line (i, line ! i) st)" by (simp add: st step)
  qed
  then show ?thesis by simp
qed

lemma shift_finished_iff:
  assumes "distinct line"
  shows "snd (fst (shift line s)) \<longleftrightarrow> first_pair (tiles s line) = Some GOAL"
  using shift_loop_pair[OF assms, of s]
  by (cases "merged (fst (shift_loop line s))") (auto simp: pair_inv_def shift_finished)

lemma move_loop_finished_iff:
  assumes "distinct (concat ls)"
  shows "fst (move_loop ls s) \<longleftrightarrow> (\<exists>l\<in>set ls. first_pair (tiles s l) = Some GOAL)"
  using assms
proof (induction ls rule: rev_induct)
  case Nil
  then show ?case by (simp add: move_loop_Nil)
next
  case (snoc l ls)
  obtain fin made s1 where m: "move_loop ls s = (fin, made, s1)" by (cases "move_loop ls s") auto
  from snoc.prems have dl: "distinct l" and dls: "distinct (concat ls)"
    and dj: "set l \<inter> set (concat ls) = {}" by auto
  have "\<forall>a\<in>set l. s1 a = s a"
  proof
    fix a assume "a \<in> set l"
    with dj have "a \<notin> set (concat ls)" by auto
    from move_loop_frame[OF this, of s] m show "s1 a = s a" by simp
  qed
  from tiles_cong[OF this] have t: "tiles s1 l = tiles s l" .
  from snoc.IH[OF dls] m have ih: "fin \<longleftrightarrow> (\<exists>l\<in>set ls. first_pair (tiles s l) = Some GOAL)" by simp
  from shift_finished_iff[OF dl, of s1] t ih show ?case
    by (auto simp: move_loop_snoc m)
qed

section \<open>The claims\<close>

subsection \<open>C5: a move that changes no line is a no-op\<close>

text \<open>
  Claim C5. For every grid of distinct squares, every direction and every random draw:
  when collapsing the lines leaves the value of every square as it was (nothing shifted and
  nothing merged), the call returns normally and the grid afterwards is the grid before, so
  no square was spawned. This is the case in particular when every line is packed towards
  the direction of the move and has no two equal neighbouring tiles.
\<close>

theorem blocked_move_is_noop:
  assumes "wf_grid g" and "lines_of d g = Inr ls"
  shows "((\<forall>a\<in>set (concat (squares g)). snd (snd (move_loop ls (val g))) a = val g a) \<longrightarrow>
            act d k g = (Inr (), g)) \<and>
         ((\<forall>l\<in>set ls. blocked_line (val g) l) \<longrightarrow> act d k g = (Inr (), g))"
proof (intro conjI impI)
  assume same: "\<forall>a\<in>set (concat (squares g)). snd (snd (move_loop ls (val g))) a = val g a"
  have "\<not> fst (snd (move_loop ls (val g)))"
  proof
    assume "fst (snd (move_loop ls (val g)))"
    from move_loop_changed[OF lines_of_distinct[OF assms] this] obtain a where
      a: "a \<in> set (concat ls)" "snd (snd (move_loop ls (val g))) a = None" "val g a \<noteq> None" by blast
    from a(1) have "a \<in> set (concat (squares g))" by (simp only: lines_of_set[OF assms(2)])
    with same a(2,3) show False by auto
  qed
  from move_unmade[OF this] show "act d k g = (Inr (), g)" by (simp add: act_lines[OF assms(2)])
next
  assume "\<forall>l\<in>set ls. blocked_line (val g) l"
  from move_unmade[OF move_loop_blocked[OF this]]
  show "act d k g = (Inr (), g)" by (simp add: act_lines[OF assms(2)])
qed

theorem blocked_move_is_noop_witness:
  "act Left 0 (grid_of [[Some 2, Some 4, None, None], [Some 8, None, None, None],
                        [None, None, None, None], [Some 2, Some 4, Some 8, Some 16]]) =
     (Inr (), grid_of [[Some 2, Some 4, None, None], [Some 8, None, None, None],
                       [None, None, None, None], [Some 2, Some 4, Some 8, Some 16]]) \<and>
   act Right 0 (grid_of [[None, None, Some 4, Some 2], [None, None, None, Some 8],
                         [None, None, None, None], [Some 16, Some 8, Some 4, Some 2]]) =
     (Inr (), grid_of [[None, None, Some 4, Some 2], [None, None, None, Some 8],
                       [None, None, None, None], [Some 16, Some 8, Some 4, Some 2]])"
proof -
  let ?g = "grid_of [[Some 2, Some 4, None, None], [Some 8, None, None, None],
                     [None, None, None, None], [Some 2, Some 4, Some 8, Some 16]]"
  let ?h = "grid_of [[None, None, Some 4, Some 2], [None, None, None, Some 8],
                     [None, None, None, None], [Some 16, Some 8, Some 4, Some 2]]"
  have wg: "wf_grid ?g" unfolding wf_grid_def by code_simp
  have wh: "wf_grid ?h" unfolding wf_grid_def by code_simp
  have lg: "lines_of Left ?g = Inr (squares ?g)" by simp
  have lh: "lines_of Right ?h = Inr (map rev (squares ?h))" by simp
  have a: "\<forall>a\<in>set (concat (squares ?g)). snd (snd (move_loop (squares ?g) (val ?g))) a = val ?g a"
    by code_simp
  have b: "\<forall>l\<in>set (map rev (squares ?h)). blocked_line (val ?h) l"
    by code_simp
  from blocked_move_is_noop[OF wg lg, of 0, THEN conjunct1, THEN mp, OF a]
    blocked_move_is_noop[OF wh lh, of 0, THEN conjunct2, THEN mp, OF b]
  show ?thesis by (rule conjI)
qed

subsection \<open>C8: a merge that reaches the goal wins\<close>

text \<open>
  Claim C8. Whenever one of the lines of a move holds \<open>[1024, 1024, None, None]\<close> (in
  travel order), the move raises \<open>GameFinishedException\<close>, which is how the won outcome
  is reported; that line holds \<open>[2048, None, None, None]\<close> afterwards; and the squares
  are exactly as the line shifts left them: no square is spawned.
\<close>

theorem goal_merge_wins:
  assumes "lines_of d g = Inr ls" and "[a, b, c, e] \<in> set ls" and "distinct (concat ls)"
    and "map (val g) [a, b, c, e] = [Some 1024, Some 1024, None, None]"
  shows "fst (act d k g) = Inl GameFinishedException \<and>
         map (val (snd (act d k g))) [a, b, c, e] = [Some 2048, None, None, None] \<and>
         val (snd (act d k g)) = snd (snd (move_loop ls (val g)))"
proof -
  let ?l = "[a, b, c, e]"
  let ?s' = "snd (snd (move_loop ls (val g)))"
  from assms(3,2) have dl: "distinct ?l"
    by (rule distinct_concat_mem)
  from assms(3,2) show ?thesis
  proof (rule move_loop_line[where s = "val g"])
    fix s1
    assume s1: "\<forall>x\<in>set ?l. s1 x = val g x"
      and res: "\<forall>x\<in>set ?l. ?s' x = snd (shift ?l s1) x"
      and fin: "snd (fst (shift ?l s1)) \<Longrightarrow> fst (move_loop ls (val g))"
    from s1 have "map s1 ?l = map (val g) ?l" by simp
    with assms(4) have v: "s1 a = Some 1024" "s1 b = Some 1024" "s1 c = None" "s1 e = None"
      by simp_all
    note sh = shift_goal_line[OF dl v]
    from fin sh(1) have "fst (move_loop ls (val g))" by simp
    then have "move ls k g = (Inl GameFinishedException, g\<lparr>val := ?s'\<rparr>)"
      by (rule move_finished)
    then have act: "act d k g = (Inl GameFinishedException, g\<lparr>val := ?s'\<rparr>)"
      by (simp only: act_lines[OF assms(1)])
    from res have "map ?s' ?l = map (snd (shift ?l s1)) ?l" by simp
    with sh(2) have "map ?s' ?l = [Some 2048, None, None, None]" by (simp only:)
    then show ?thesis unfolding act by simp
  qed
qed

theorem goal_merge_wins_witness:
  "fst (act Left 0 (grid_of [[Some 1024, Some 1024, None, None], [Some 2, None, Some 2, None]])) =
     Inl GameFinishedException \<and>
   map (val (snd (act Left 0 (grid_of [[Some 1024, Some 1024, None, None], [Some 2, None, Some 2, None]]))))
     [(0, 0), (0, 1), (0, 2), (0, 3)] = [Some 2048, None, None, None]"
proof -
  let ?g = "grid_of [[Some 1024, Some 1024, None, None], [Some 2, None, Some 2, None]]"
  have h1: "lines_of Left ?g = Inr (squares ?g)" by simp
  have h2: "[(0, 0), (0, 1), (0, 2), (0, 3)] \<in> set (squares ?g)" by code_simp
  have h3: "distinct (concat (squares ?g))" by code_simp
  have h4: "map (val ?g) [(0, 0), (0, 1), (0, 2), (0, 3)] = [Some 1024, Some 1024, None, None]"
    by code_simp
  note r = goal_merge_wins[OF h1 h2 h3 h4, of 0]
  from r have c1: "fst (act Left 0 ?g) = Inl GameFinishedException" by (rule conjunct1)
  from r have c2: "map (val (snd (act Left 0 ?g))) [(0, 0), (0, 1), (0, 2), (0, 3)] =
      [Some 2048, None, None, None]" by (rule conjunct1[OF conjunct2])
  from c1 c2 show ?thesis by (rule conjI)
qed

subsection \<open>C3: the spawn after a changed move always succeeds\<close>

text \<open>
  Claim C3. In a grid of distinct squares, for every direction: when the lines of the move
  report a change, at least one square of the grid is empty at the moment \<open>_new_square\<close>
  is called, so the move never raises \<open>GameOverException\<close>; nor does any sequence of
  moves of the main loop.
\<close>

theorem spawn_after_change_succeeds:
  assumes "wf_grid g"
  shows "(\<forall>ls. lines_of d g = Inr ls \<longrightarrow> fst (snd (move_loop ls (val g))) \<longrightarrow>
            get_empty_squares (g\<lparr>val := snd (snd (move_loop ls (val g)))\<rparr>) \<noteq> []) \<and>
         fst (act d k g) \<noteq> Inl GameOverException \<and>
         fst (play ms g) \<noteq> Inl GameOverException"
  using assms move_loop_made_empty act_not_lost play_not_lost by blast

theorem spawn_after_change_succeeds_witness:
  "fst (snd (move_loop (squares (grid_of [[Some 2, Some 2], [Some 4, Some 8]]))
      (val (grid_of [[Some 2, Some 2], [Some 4, Some 8]])))) \<and>
   get_empty_squares ((grid_of [[Some 2, Some 2], [Some 4, Some 8]])
      \<lparr>val := snd (snd (move_loop (squares (grid_of [[Some 2, Some 2], [Some 4, Some 8]]))
                (val (grid_of [[Some 2, Some 2], [Some 4, Some 8]]))))\<rparr>) \<noteq> [] \<and>
   fst (act Left 0 (grid_of [[Some 2, Some 2], [Some 4, Some 8]])) \<noteq> Inl GameOverException"
proof -
  let ?g = "grid_of [[Some 2, Some 2], [Some 4, Some 8]]"
  have wf: "wf_grid ?g" unfolding wf_grid_def by code_simp
  have l: "lines_of Left ?g = Inr (squares ?g)" by simp
  have m: "fst (snd (move_loop (squares ?g) (val ?g)))" by code_simp
  note r = spawn_after_change_succeeds[OF wf, of Left 0 "[]"]
  from r l m have "get_empty_squares (?g\<lparr>val := snd (snd (move_loop (squares ?g) (val ?g)))\<rparr>) \<noteq> []"
    by (elim conjE allE[of _ "squares ?g"] impE) (assumption+)
  moreover from r have "fst (act Left 0 ?g) \<noteq> Inl GameOverException"
    by (elim conjE)
  ultimately show ?thesis using m by (intro conjI)
qed

subsection \<open>C4: how a move signals its outcome\<close>

text \<open>
  Claim C4 says that a move returns its outcome and never raises. The source raises:
  on a 4 by 4 grid whose first row is \<open>[1024, 1024, None, None]\<close>, \<open>left\<close> ends with
  \<open>GameFinishedException\<close>.
\<close>

theorem win_is_raised_counterexample:
  "fst (act Left 0 (grid_of [[Some 1024, Some 1024, None, None], [Some 2, None, None, None],
                             [None, None, None, None], [None, None, Some 4, None]])) =
     Inl GameFinishedException"
  by code_simp

text \<open>
  Claim C4, amended. In a grid of distinct squares a move raises \<open>GameFinishedException\<close>
  exactly when, in some line of the move, the first two equal neighbouring tiles add up to
  the goal 2048; it raises \<open>IndexError\<close> exactly when the column decomposition does; and
  otherwise it returns normally, with no value. It never raises \<open>GameOverException\<close>.
\<close>

theorem move_signals_by_exception:
  assumes "wf_grid g"
  shows "fst (act d k g) =
    (case lines_of d g of
       Inl e \<Rightarrow> Inl IndexError
     | Inr ls \<Rightarrow>
         if \<exists>l\<in>set ls. first_pair (tiles (val g) l) = Some GOAL
         then Inl GameFinishedException else Inr ())"
proof (cases "lines_of d g")
  case (Inl e)
  with lines_of_raise[OF Inl] show ?thesis by (simp add: act_lines_raise)
next
  case (Inr ls)
  from move_loop_finished_iff[OF lines_of_distinct[OF assms Inr], of "val g"]
    move_outcome[OF assms Inr, of k]
  show ?thesis by (simp add: act_lines[OF Inr] Inr)
qed

theorem move_signals_by_exception_witness:
  "fst (act Left 0 (grid_of [[Some 1024, Some 1024, None, None], [Some 2, None, None, None],
                             [None, None, None, None], [None, None, Some 4, None]])) =
     Inl GameFinishedException \<and>
   fst (act Right 0 (grid_of [[Some 512, Some 512, None, None], [Some 2, None, None, None],
                              [None, None, None, None], [None, None, Some 4, None]])) = Inr ()"
proof -
  let ?g = "grid_of [[Some 1024, Some 1024, None, None], [Some 2, None, None, None],
                     [None, None, None, None], [None, None, Some 4, None]]"
  let ?h = "grid_of [[Some 512, Some 512, None, None], [Some 2, None, None, None],
                     [None, None, None, None], [None, None, Some 4, None]]"
  have wg: "wf_grid ?g" unfolding wf_grid_def by code_simp
  have wh: "wf_grid ?h" unfolding wf_grid_def by code_simp
  have a: "(case lines_of Left ?g of
       Inl e \<Rightarrow> Inl IndexError
     | Inr ls \<Rightarrow>
         if \<exists>l\<in>set ls. first_pair (tiles (val ?g) l) = Some GOAL
         then Inl GameFinishedException else Inr ()) = Inl GameFinishedException"
    by code_simp
  have b: "(case lines_of Right ?h of
       Inl e \<Rightarrow> Inl IndexError
     | Inr ls \<Rightarrow>
         if \<exists>l\<in>set ls. first_pair (tiles (val ?h) l) = Some GOAL
         then Inl GameFinishedException else Inr ()) = Inr ()"
    by code_simp
  from trans[OF move_signals_by_exception[OF wg, of Left 0] a]
    trans[OF move_signals_by_exception[OF wh, of Right 0] b]
  show ?thesis by (rule conjI)
qed

subsection \<open>C1 and C2: one merge per line\<close>

text \<open>
  Claim C1 says that the row \<open>[2, 2, 2, 2]\<close> collapses to \<open>[4, 4, None, None]\<close>. The
  source merges once per line: the first pair merges, the third tile slides next to the
  merged one, and the fourth tile, equal to the last filled spot, is skipped.
\<close>

theorem four_twos_counterexample:
  "map (snd (shift [(0, 0), (0, 1), (0, 2), (0, 3)]
          (val (grid_of [[Some 2, Some 2, Some 2, Some 2]]))))
     [(0, 0), (0, 1), (0, 2), (0, 3)] = [Some 4, Some 2, None, Some 2] \<and>
   map (snd (shift [(0, 0), (0, 1), (0, 2), (0, 3)]
          (val (grid_of [[Some 2, Some 2, Some 2, Some 2]]))))
     [(0, 0), (0, 1), (0, 2), (0, 3)] \<noteq> [Some 4, Some 4, None, None]"
  by code_simp

text \<open>
  Claim C1, amended. A line of at most four distinct squares (every line of the 4 by 4
  game) merges at most once per move: the number of tiles drops by one when the line's
  \<open>merged\<close> flag is set and not at all otherwise. In particular a line of four equal
  tiles \<open>x\<close> merges its first pair only: the leading square holds \<open>2x\<close> and three tiles
  remain, so the result is neither \<open>[2x, 2x, None, None]\<close> nor \<open>[4x, None, None, None]\<close>.
\<close>

theorem one_merge_per_line:
  assumes "distinct line" and "length line \<le> 4"
  shows "count_filled (snd (shift line s)) line +
           (if merged (fst (shift_loop line s)) then 1 else 0) = count_filled s line \<and>
         (\<forall>a b c d x. line = [a, b, c, d] \<and> map s line = [Some x, Some x, Some x, Some x] \<and> x \<noteq> 0 \<longrightarrow>
            snd (shift line s) a = Some (x + x) \<and> merged (fst (shift_loop line s)) \<and>
            count_filled (snd (shift line s)) line = 3)"
proof (intro conjI allI impI)
  show c: "count_filled (snd (shift line s)) line +
           (if merged (fst (shift_loop line s)) then 1 else 0) = count_filled s line"
    using shift_loop_count_short[OF assms, of s] by (simp add: shift_store)
  fix a b c d x
  assume h: "line = [a, b, c, d] \<and> map s line = [Some x, Some x, Some x, Some x] \<and> x \<noteq> 0"
  then have l: "line = [a, b, c, d]" and v: "s a = Some x" "s b = Some x" "s c = Some x" "s d = Some x"
    and x: "x \<noteq> 0" by auto
  from assms(1) l have dl: "distinct [a, b, c, d]" by simp
  from shift_equal_line(2)[OF dl v x]
  have m: "map (snd (shift line s)) line = [Some (x + x), Some x, None, Some x]" by (simp add: l)
  then show "snd (shift line s) a = Some (x + x)" by (simp add: l)
  from m show n: "count_filled (snd (shift line s)) line = 3"
    unfolding count_filled_def l by (simp add: l)
  from v have "count_filled s line = 4" by (simp add: count_filled_def l)
  with c n show "merged (fst (shift_loop line s))" by (simp split: if_splits)
qed

theorem one_merge_per_line_witness:
  "snd (shift [(0, 0), (0, 1), (0, 2), (0, 3)] (val (grid_of [[Some 2, Some 2, Some 2, Some 2]]))) (0, 0)
     = Some 4 \<and>
   count_filled (snd (shift [(0, 0), (0, 1), (0, 2), (0, 3)] (val (grid_of [[Some 2, Some 2, Some 2, Some 2]]))))
     [(0, 0), (0, 1), (0, 2), (0, 3)] = 3"
proof -
  let ?l = "[(0, 0), (0, 1), (0, 2), (0, 3)] :: square list"
  let ?s = "val (grid_of [[Some 2, Some 2, Some 2, Some 2]])"
  have h1: "distinct ?l" by simp
  have h2: "length ?l \<le> 4" by simp
  have h3: "?l = [(0, 0), (0, 1), (0, 2), (0, 3)] \<and> map ?s ?l = [Some 2, Some 2, Some 2, Some 2] \<and> (2::int) \<noteq> 0"
    by code_simp
  note r = one_merge_per_line[OF h1 h2, of ?s, THEN conjunct2, rule_format,
      of "(0, 0)" "(0, 1)" "(0, 2)" "(0, 3)" 2, OF h3]
  from r have a: "snd (shift ?l ?s) (0, 0) = Some (2 + 2)" by (rule conjunct1)
  from r have b: "count_filled (snd (shift ?l ?s)) ?l = 3" by (rule conjunct2[OF conjunct2])
  from a have a': "snd (shift ?l ?s) (0, 0) = Some 4" by (simp only: one_add_one numeral_plus_numeral semiring_norm)
  from a' b show ?thesis by (rule conjI)
qed

text \<open>
  Claim C2 says that a tile equal to the last filled spot, met after the line has merged,
  is still moved into the first empty slot. The source executes \<open>continue\<close> there: in
  \<open>[2, 2, 4, None]\<close> the 4 stays at index 2 although index 1 is empty.
\<close>

theorem merged_equal_tile_stays:
  "map (snd (shift [(0, 0), (0, 1), (0, 2), (0, 3)]
          (val (grid_of [[Some 2, Some 2, Some 4, None]]))))
     [(0, 0), (0, 1), (0, 2), (0, 3)] = [Some 4, None, Some 4, None]"
  by code_simp

subsection \<open>C9: the freshly constructed grid\<close>

text \<open>
  Claim C9. For natural numbers \<open>w\<close> and \<open>h\<close> with \<open>w * h \<ge> 2\<close> and random draws in range,
  the constructor returns a grid of \<open>w\<close> rows of \<open>h\<close> distinct squares in which exactly two
  squares, at different positions, hold the value 2 and every other square is empty. A
  spawn, at construction or after a move, writes the value 2 and nothing else.
\<close>

theorem fresh_grid_has_two_twos:
  fixes w h :: nat
  assumes "2 \<le> w * h" "k1 < w * h" "k2 < w * h - 1"
  shows "\<exists>g a b. Grid_init (int w) (int h) k1 k2 = Inr g \<and>
           length (squares g) = w \<and> (\<forall>r\<in>set (squares g). length r = h) \<and>
           distinct (concat (squares g)) \<and>
           a \<in> set (concat (squares g)) \<and> b \<in> set (concat (squares g)) \<and> a \<noteq> b \<and>
           val g a = Some 2 \<and> val g b = Some 2 \<and>
           (\<forall>c. c \<noteq> a \<and> c \<noteq> b \<longrightarrow> val g c = None) \<and>
           (\<forall>k' g' c. val (snd (new_square k' g')) c = val g' c \<or>
                       val (snd (new_square k' g')) c = Some 2)"
proof -
  note r = Grid_init_result[OF assms]
  show ?thesis
    apply (rule exI[of _ "\<lparr>width = int w, height = int h, squares = all_squares w h,
                val = (\<lambda>_. None)(concat (all_squares w h) ! k1 := Some 2,
                  filter (\<lambda>y. y \<noteq> concat (all_squares w h) ! k1) (concat (all_squares w h)) ! k2 := Some 2)\<rparr>"])
    apply (rule exI[of _ "concat (all_squares w h) ! k1"])
    apply (rule exI[of _ "filter (\<lambda>y. y \<noteq> concat (all_squares w h) ! k1) (concat (all_squares w h)) ! k2"])
    using r by (simp add: all_squares_rows distinct_all_squares new_square_value)
qed

theorem fresh_grid_has_two_twos_witness:
  "\<exists>g a b. Grid_init (int 4) (int 4) 3 7 = Inr g \<and>
           length (squares g) = 4 \<and> (\<forall>r\<in>set (squares g). length r = 4) \<and>
           distinct (concat (squares g)) \<and>
           a \<in> set (concat (squares g)) \<and> b \<in> set (concat (squares g)) \<and> a \<noteq> b \<and>
           val g a = Some 2 \<and> val g b = Some 2 \<and>
           (\<forall>c. c \<noteq> a \<and> c \<noteq> b \<longrightarrow> val g c = None) \<and>
           (\<forall>k' g' c. val (snd (new_square k' g')) c = val g' c \<or>
                       val (snd (new_square k' g')) c = Some 2)"
  by (rule fresh_grid_has_two_twos) simp_all

subsection \<open>C10: column moves on a grid that is taller than wide\<close>

text \<open>
  Claim C10. Take any grid with at least one row whose rows all hold \<open>h\<close> squares; the
  column decomposition allocates one list per row. When there are fewer than \<open>h\<close> rows,
  \<open>top\<close> and \<open>bottom\<close> raise \<open>IndexError\<close> and leave the grid as it is; when there are
  at least \<open>h\<close> rows, as in the 4 by 4 game, they never raise \<open>IndexError\<close>. No move
  changes the squares of a grid, and the constructor builds \<open>width\<close> rows of \<open>height\<close>
  squares with at least one row, so this holds of every grid of a game, at every move.
\<close>

theorem column_moves_need_wide_grid:
  assumes "squares g \<noteq> []" and "\<forall>r\<in>set (squares g). length r = h"
  shows "(length (squares g) < h \<longrightarrow>
            Grid_top k g = (Inl IndexError, g) \<and> Grid_bottom k g = (Inl IndexError, g)) \<and>
         (h \<le> length (squares g) \<longrightarrow>
            fst (Grid_top k g) \<noteq> Inl IndexError \<and> fst (Grid_bottom k g) \<noteq> Inl IndexError) \<and>
         squares (snd (act d k g)) = squares g \<and>
         (Grid_init w0 h0 k1 k2 = Inr g0 \<longrightarrow>
            squares g0 \<noteq> [] \<and> length (squares g0) = nat w0 \<and>
            (\<forall>r\<in>set (squares g0). length r = nat h0))"
proof (intro conjI impI)
  assume "length (squares g) < h"
  from get_columns_overflow[OF assms this]
  show "Grid_top k g = (Inl IndexError, g)" "Grid_bottom k g = (Inl IndexError, g)"
    by (simp_all add: Grid_top_def Grid_bottom_def)
next
  assume "h \<le> length (squares g)"
  from get_columns_fit[OF assms(2) this] obtain cols where c: "get_columns g = Inr cols" by blast
  show "fst (Grid_top k g) \<noteq> Inl IndexError" "fst (Grid_bottom k g) \<noteq> Inl IndexError"
    by (simp_all add: Grid_top_def Grid_bottom_def c move_no_IndexError)
next
  show "squares (snd (act d k g)) = squares g" by (rule act_squares)
next
  assume i: "Grid_init w0 h0 k1 k2 = Inr g0"
  note sq = Grid_init_squares[OF i]
  from sq(2) show "squares g0 \<noteq> []" by (auto simp: sq(1) all_squares_def)
  show "length (squares g0) = nat w0" by (simp add: sq(1) all_squares_rows)
  show "\<forall>r\<in>set (squares g0). length r = nat h0" by (simp add: sq(1) all_squares_rows)
qed

theorem column_moves_need_wide_grid_witness:
  "Grid_top 0 (grid_of [[Some 4, None, None], [Some 2, None, Some 2]]) =
     (Inl IndexError, grid_of [[Some 4, None, None], [Some 2, None, Some 2]]) \<and>
   Grid_bottom 0 (grid_of [[Some 4, None, None], [Some 2, None, Some 2]]) =
     (Inl IndexError, grid_of [[Some 4, None, None], [Some 2, None, Some 2]]) \<and>
   fst (Grid_top 0 (grid_of [[Some 2, Some 4, None, None], [Some 8, None, None, None],
                             [None, None, None, None], [Some 2, None, None, Some 2]])) \<noteq> Inl IndexError \<and>
   fst (Grid_bottom 0 (grid_of [[Some 2, Some 4, None, None], [Some 8, None, None, None],
                             [None, None, None, None], [Some 2, None, None, Some 2]])) \<noteq> Inl IndexError \<and>
   squares (projr (Grid_init 2 3 0 0)) \<noteq> [] \<and>
   length (squares (projr (Grid_init 2 3 0 0))) = nat 2"
proof -
  let ?t = "grid_of [[Some 4, None, None], [Some 2, None, Some 2]]"
  let ?w = "grid_of [[Some 2, Some 4, None, None], [Some 8, None, None, None],
                     [None, None, None, None], [Some 2, None, None, Some 2]]"
  have t1: "squares ?t \<noteq> []" by code_simp
  have t2: "\<forall>r\<in>set (squares ?t). length r = 3" by code_simp
  have t3: "length (squares ?t) < 3" by code_simp
  have w1: "squares ?w \<noteq> []" by code_simp
  have w2: "\<forall>r\<in>set (squares ?w). length r = 4" by code_simp
  have w3: "4 \<le> length (squares ?w)" by code_simp
  have e: "Grid_init 2 3 0 0 = Inr (projr (Grid_init 2 3 0 0))"
    using Grid_init_result(1)[of 2 3 0 0] by simp
  note a = column_moves_need_wide_grid[OF t1 t2, of 0, THEN conjunct1, THEN mp, OF t3]
  note b = column_moves_need_wide_grid[OF w1 w2, of 0, THEN conjunct2, THEN conjunct1, THEN mp, OF w3]
  note c = column_moves_need_wide_grid[OF t1 t2, of 0 Left 2 3 0 0 "projr (Grid_init 2 3 0 0)",
      THEN conjunct2, THEN conjunct2, THEN conjunct2, THEN mp, OF e]
  from c have c1: "squares (projr (Grid_init 2 3 0 0)) \<noteq> []" by (rule conjunct1)
  from c have c2: "length (squares (projr (Grid_init 2 3 0 0))) = nat 2"
    by (rule conjunct1[OF conjunct2])
  from a b c1 c2 show ?thesis by (intro conjI) (elim conjE, assumption)+
qed

subsection \<open>C6: every tile is a power of two\<close>

text \<open>
  Claim C6. In a freshly constructed grid every non-empty square holds a power of two that
  is at least 2, and every move, in any direction and whatever its outcome, keeps it so.
\<close>

theorem tiles_are_powers_of_two:
  "(Grid_init w h k1 k2 = Inr g \<longrightarrow> tiles_ok g) \<and>
   (tiles_ok g \<longrightarrow> tiles_ok (snd (act d k g)))"
proof (intro conjI impI)
  assume "Grid_init w h k1 k2 = Inr g"
  from Grid_init_values[OF this] show "tiles_ok g"
    unfolding tiles_ok_def using pow2_tile_2 by (metis option.inject option.distinct(1))
next
  assume ok: "tiles_ok g"
  show "tiles_ok (snd (act d k g))"
  proof (cases "lines_of d g")
    case (Inl e)
    with ok show ?thesis by (simp add: act_lines_raise)
  next
    case (Inr ls)
    from lines_of_set[OF Inr] have "set (concat ls) \<subseteq> set (concat (squares g))" by simp
    from move_tiles_ok[OF ok this, of k] show ?thesis by (simp add: act_lines[OF Inr])
  qed
qed

theorem tiles_are_powers_of_two_witness:
  "tiles_ok (projr (Grid_init 4 4 3 7)) \<and>
   tiles_ok (snd (act Left 0 (projr (Grid_init 4 4 3 7))))"
proof -
  let ?g = "projr (Grid_init 4 4 3 7)"
  have e: "Grid_init 4 4 3 7 = Inr ?g"
    using Grid_init_result(1)[of 4 4 3 7] by simp
  note a = tiles_are_powers_of_two[of 4 4 3 7 ?g Left 0, THEN conjunct1, rule_format, OF e]
  note b = tiles_are_powers_of_two[of 4 4 3 7 ?g Left 0, THEN conjunct2, rule_format, OF a]
  from a b show ?thesis by (rule conjI)
qed

subsection \<open>C7: the number of tiles after a move\<close>

text \<open>
  Claim C7 says that the number of tiles never decreases across a move that changes the
  grid and does not end the game. Two lines that both merge remove two tiles, and the
  spawn adds one.
\<close>

theorem two_merges_lose_a_tile_counterexample:
  "fst (act Left 0 (grid_of [[Some 2, Some 2, None, None], [Some 4, Some 4, None, None],
                             [None, None, None, None], [None, None, None, None]])) = Inr () \<and>
   tile_count (grid_of [[Some 2, Some 2, None, None], [Some 4, Some 4, None, None],
                        [None, None, None, None], [None, None, None, None]]) = 4 \<and>
   tile_count (snd (act Left 0 (grid_of [[Some 2, Some 2, None, None], [Some 4, Some 4, None, None],
                        [None, None, None, None], [None, None, None, None]]))) = 3"
  by code_simp

text \<open>
  Claim C7, amended. For a grid of distinct squares whose lines hold at most four squares
  (the 4 by 4 game), a move that changes a line and does not reach the goal returns
  normally, and the number of tiles afterwards is the number before, minus the number of
  lines that merged, plus one for the spawned tile. So the count decreases exactly when
  two or more lines merge.
\<close>

theorem tile_count_after_move:
  assumes "wf_grid g" and "lines_of d g = Inr ls" and "\<forall>l\<in>set ls. length l \<le> 4"
    and "fst (snd (move_loop ls (val g)))" and "\<not> fst (move_loop ls (val g))"
    and "k < length (get_empty_squares (g\<lparr>val := snd (snd (move_loop ls (val g)))\<rparr>))"
  shows "fst (act d k g) = Inr () \<and>
         tile_count (snd (act d k g)) + merge_count ls (val g) = tile_count g + 1"
proof -
  let ?s' = "snd (snd (move_loop ls (val g)))"
  let ?g' = "g\<lparr>val := ?s'\<rparr>"
  have mv: "move ls k g = new_square k ?g'"
    using assms(4,5) by (cases "move_loop ls (val g)") (simp add: move_def)
  from assms(1) have wf': "wf_grid ?g'" by (simp add: wf_grid_def)
  note ns = new_square_count[OF wf' assms(6)]
  from lines_of_distinct[OF assms(1,2)] have dl: "distinct (concat ls)" .
  from move_loop_count[OF dl assms(3), of "val g"]
  have "count_filled ?s' (concat ls) + merge_count ls (val g) = count_filled (val g) (concat ls)" .
  with count_filled_mset[OF lines_of_mset[OF assms(2)]]
  have "tile_count ?g' + merge_count ls (val g) = tile_count g"
    by (simp add: tile_count_def)
  with ns show ?thesis by (simp add: act_lines[OF assms(2)] mv)
qed

theorem tile_count_after_move_witness:
  "fst (act Left 0 (grid_of [[Some 2, Some 2, None, None], [Some 4, Some 4, None, None],
                             [None, None, None, None], [Some 8, None, None, None]])) = Inr () \<and>
   tile_count (snd (act Left 0 (grid_of [[Some 2, Some 2, None, None], [Some 4, Some 4, None, None],
                             [None, None, None, None], [Some 8, None, None, None]]))) +
     merge_count (squares (grid_of [[Some 2, Some 2, None, None], [Some 4, Some 4, None, None],
                             [None, None, None, None], [Some 8, None, None, None]]))
       (val (grid_of [[Some 2, Some 2, None, None], [Some 4, Some 4, None, None],
                             [None, None, None, None], [Some 8, None, None, None]])) =
   tile_count (grid_of [[Some 2, Some 2, None, None], [Some 4, Some 4, None, None],
                             [None, None, None, None], [Some 8, None, None, None]]) + 1"
proof -
  let ?g = "grid_of [[Some 2, Some 2, None, None], [Some 4, Some 4, None, None],
                     [None, None, None, None], [Some 8, None, None, None]]"
  have h1: "wf_grid ?g" unfolding wf_grid_def by code_simp
  have h2: "lines_of Left ?g = Inr (squares ?g)" by simp
  have h3: "\<forall>l\<in>set (squares ?g). length l \<le> 4" by code_simp
  have h4: "fst (snd (move_loop (squares ?g) (val ?g)))" by code_simp
  have h5: "\<not> fst (move_loop (squares ?g) (val ?g))" by code_simp
  have h6: "0 < length (get_empty_squares (?g\<lparr>val := snd (snd (move_loop (squares ?g) (val ?g)))\<rparr>))"
    by code_simp
  from tile_count_after_move[OF h1 h2 h3 h4 h5 h6] show ?thesis .
qed

end
